theory Spec2Isabelle
  imports Complex_Main "HOL-Library.AList"
begin

section \<open>The history hook (src/hooks/useHistory.ts)\<close>

text \<open>
  The hook keeps a \<open>HistoryState\<close> (React state) and the mutable flag
  \<open>isUndoRedoAction\<close> (a ref). Every operation is modelled as a function from the
  hook's state to its next state; \<open>undo\<close> and \<open>redo\<close> also return what the source
  returns (\<open>null\<close> is \<open>None\<close>). The callback handed to \<open>setTimeout\<close> is the
  separate event \<open>timeoutFires\<close>.
\<close>

record 'd HistoryState =
  past :: "'d list"
  present :: 'd
  future :: "'d list"

record 'd hook =
  history :: "'d HistoryState"
  isUndoRedoAction :: bool

definition MAX_HISTORY_SIZE :: nat where
  "MAX_HISTORY_SIZE = 50"

definition useHistory :: "'d \<Rightarrow> 'd hook" where
  "useHistory initialState =
     \<lparr>history = \<lparr>past = [], present = initialState, future = []\<rparr>,
      isUndoRedoAction = False\<rparr>"

definition canUndo :: "'d hook \<Rightarrow> bool" where
  "canUndo s = (length (past (history s)) > 0)"

definition canRedo :: "'d hook \<Rightarrow> bool" where
  "canRedo s = (length (future (history s)) > 0)"

definition setState :: "'d hook \<Rightarrow> 'd \<Rightarrow> bool \<Rightarrow> 'd hook" where
  "setState s newState skipHistory =
     (if skipHistory \<or> isUndoRedoAction s
      then s\<lparr>history := (history s)\<lparr>present := newState\<rparr>\<rparr>
      else
        let prev = history s;
            newPast = past prev @ [present prev];
            newPast = (if length newPast > MAX_HISTORY_SIZE then tl newPast else newPast)
        in s\<lparr>history := \<lparr>past = newPast, present = newState, future = []\<rparr>\<rparr>)"

definition undo :: "'d hook \<Rightarrow> 'd hook \<times> 'd option" where
  "undo s =
     (if \<not> canUndo s then (s, None)
      else
        let h = history s;
            newState = \<lparr>past = butlast (past h),
                        present = last (past h),
                        future = present h # future h\<rparr>
        in (\<lparr>history = newState, isUndoRedoAction = True\<rparr>, Some (present newState)))"

definition redo :: "'d hook \<Rightarrow> 'd hook \<times> 'd option" where
  "redo s =
     (if \<not> canRedo s then (s, None)
      else
        let h = history s;
            newState = \<lparr>past = past h @ [present h],
                        present = hd (future h),
                        future = tl (future h)\<rparr>
        in (\<lparr>history = newState, isUndoRedoAction = True\<rparr>, Some (present newState)))"

definition timeoutFires :: "'d hook \<Rightarrow> 'd hook" where
  "timeoutFires s = s\<lparr>isUndoRedoAction := False\<rparr>"

definition reset :: "'d hook \<Rightarrow> 'd \<Rightarrow> 'd hook" where
  "reset s newState = s\<lparr>history := \<lparr>past = [], present = newState, future = []\<rparr>\<rparr>"

text \<open>The calls a client of the hook can make, and runs of them from the initial state.\<close>

datatype 'd action =
    SetState 'd bool
  | Undo
  | Redo
  | Reset 'd
  | TimeoutFires

fun step :: "'d hook \<Rightarrow> 'd action \<Rightarrow> 'd hook" where
  "step s (SetState d skipHistory) = setState s d skipHistory"
| "step s Undo = fst (undo s)"
| "step s Redo = fst (redo s)"
| "step s (Reset d) = reset s d"
| "step s TimeoutFires = timeoutFires s"

definition run :: "'d hook \<Rightarrow> 'd action list \<Rightarrow> 'd hook" where
  "run s acts = foldl step s acts"

definition commitAll :: "'d hook \<Rightarrow> 'd list \<Rightarrow> 'd hook" where
  "commitAll s ds = foldl (\<lambda>s d. setState s d False) s ds"

text \<open>The bound of the hook, and the documents it holds from oldest to current.\<close>

definition withinBound :: "'d hook \<Rightarrow> bool" where
  "withinBound s =
     (length (past (history s)) + length (future (history s)) \<le> MAX_HISTORY_SIZE)"

definition timeline :: "'d hook \<Rightarrow> 'd list" where
  "timeline s = past (history s) @ [present (history s)]"

section \<open>Geometry and canvas bounds (lib/boundaries.ts)\<close>

text \<open>
  JavaScript numbers are modelled as reals, as the data model of the specification has
  them. \<open>Math.round\<close> rounds to the nearest integer, halves upwards.
\<close>

record Position =
  x :: real
  y :: real

record Dimensions =
  width :: real
  height :: real

definition minX :: real where "minX = 50"
definition minY :: real where "minY = 50"
definition maxX :: real where "maxX = 2950"
definition maxY :: real where "maxY = 2950"

definition GRID_SIZE :: real where
  "GRID_SIZE = 20"

definition Math_round :: "real \<Rightarrow> real" where
  "Math_round v = of_int \<lfloor>v + 1 / 2\<rfloor>"

definition snapToGrid :: "real \<Rightarrow> real" where
  "snapToGrid v = Math_round (v / GRID_SIZE) * GRID_SIZE"

definition snapPositionToGrid :: "Position \<Rightarrow> Position" where
  "snapPositionToGrid position = \<lparr>x = snapToGrid (x position), y = snapToGrid (y position)\<rparr>"

definition constrainPosition :: "Position \<Rightarrow> Dimensions \<Rightarrow> Position" where
  "constrainPosition position dimensions =
     \<lparr>x = max minX (min (x position) (maxX - width dimensions)),
      y = max minY (min (y position) (maxY - height dimensions))\<rparr>"

definition constrainAndSnapPosition :: "Position \<Rightarrow> Dimensions \<Rightarrow> Position" where
  "constrainAndSnapPosition position dimensions =
     (let snapped = snapPositionToGrid position
      in constrainPosition snapped dimensions)"

definition isWithinBounds :: "Position \<Rightarrow> Dimensions \<Rightarrow> bool" where
  "isWithinBounds position dimensions =
     (x position \<ge> minX \<and>
      y position \<ge> minY \<and>
      x position + width dimensions \<le> maxX \<and>
      y position + height dimensions \<le> maxY)"

section \<open>The diagram data model (types/diagram.ts)\<close>

text \<open>
  A node's \<open>position\<close> is an object. The canvas only ever replaces it by a fresh
  object, so there it is the value itself (\<open>'p = Position\<close>); the layout function
  assigns to its fields, so there it is a reference into a store.
\<close>

datatype NodeType = Rectangle | Ellipse | Diamond | Image

record 'p DiagramNode =
  node_id :: string
  node_type :: NodeType
  node_text :: string
  position :: 'p
  dimensions :: Dimensions
  imageUrl :: "string option"

record DiagramEdge =
  edge_id :: string
  edge_from :: string
  edge_to :: string
  edge_label :: "string option"

record DrawingPath =
  path_id :: string
  points :: "Position list"
  color :: string
  path_width :: real

record 'p DiagramData =
  nodes :: "'p DiagramNode list"
  edges :: "DiagramEdge list"
  paths :: "DrawingPath list option"

section \<open>The canvas controller (components/Canvas.tsx)\<close>

text \<open>
  A handler is a function of the component's props, its local state and the event. It
  returns the next local state and the calls it made to the callbacks of its props, in
  order. \<open>Date.now()\<close> is the argument \<open>now\<close>. \<open>canvasRect\<close> is the left and top of
  the canvas element's bounding rectangle, \<open>None\<close> while \<open>canvasRef.current\<close> is
  \<open>null\<close>; \<open>targetIsBody\<close> is the test \<open>e.target === document.body\<close>.
\<close>

datatype Tool = ToolSelect | ToolRectangle | ToolEllipse | ToolDiamond | ToolText | ToolPen

record CanvasProps =
  diagramData :: "Position DiagramData"
  selectedNodeIds :: "string list"
  selectedTool :: Tool
  penColor :: string

record CanvasState =
  canvasRect :: "Position option"
  offset :: Position
  scale :: real
  isPanning :: bool
  isDragging :: bool
  isDrawing :: bool
  isSelecting :: bool
  lastMousePos :: Position
  dragOffsets :: "(string \<times> Position) list"
  drawStart :: Position
  selectionBox :: "(Position \<times> Position) option"
  currentPath :: "Position list"
  editingTextNode :: "string option"
  textInput :: string
  textInputPos :: Position
  isSpacePressed :: bool
  tempNodePositions :: "(string \<times> Position) list"

record Calls =
  setDiagramData :: "Position DiagramData list"
  onNodeSelect :: "string list list"
  onToolChange :: "Tool list"

record MouseEvent =
  button :: int
  clientX :: real
  clientY :: real
  ctrlKey :: bool
  metaKey :: bool

record KeyboardEvent =
  key :: string
  targetIsBody :: bool

definition noCalls :: Calls where
  "noCalls = \<lparr>setDiagramData = [], onNodeSelect = [], onToolChange = []\<rparr>"

text \<open>The decimal digits of a number, as a template literal prints it.\<close>

definition digit :: "nat \<Rightarrow> char" where
  "digit k = char_of (of_char CHR ''0'' + k)"

fun decimal :: "nat \<Rightarrow> string" where
  "decimal n = (if n div 10 = 0 then [digit n] else decimal (n div 10) @ [digit (n mod 10)])"

definition toUpperCase_char :: "char \<Rightarrow> char" where
  "toUpperCase_char c =
     (let n = (of_char c :: nat) in if 97 \<le> n \<and> n \<le> 122 then char_of (n - 32) else c)"

definition capitalized :: "string \<Rightarrow> string" where
  "capitalized s = (case s of [] \<Rightarrow> [] | c # cs \<Rightarrow> toUpperCase_char c # cs)"

fun toolName :: "Tool \<Rightarrow> string" where
  "toolName ToolSelect = ''select''"
| "toolName ToolRectangle = ''rectangle''"
| "toolName ToolEllipse = ''ellipse''"
| "toolName ToolDiamond = ''diamond''"
| "toolName ToolText = ''text''"
| "toolName ToolPen = ''pen''"

text \<open>The cast \<open>selectedTool as NodeType\<close>, defined on the three shape tools.\<close>

fun asNodeType :: "Tool \<Rightarrow> NodeType option" where
  "asNodeType ToolRectangle = Some Rectangle"
| "asNodeType ToolEllipse = Some Ellipse"
| "asNodeType ToolDiamond = Some Diamond"
| "asNodeType _ = None"

text \<open>\<open>!editingTextNode\<close>: \<open>null\<close> and the empty string are falsy.\<close>

definition notEditing :: "string option \<Rightarrow> bool" where
  "notEditing e = (case e of None \<Rightarrow> True | Some s \<Rightarrow> s = [])"

definition screenToCanvas :: "CanvasState \<Rightarrow> real \<Rightarrow> real \<Rightarrow> Position" where
  "screenToCanvas st screenX screenY =
     (case canvasRect st of
        None \<Rightarrow> \<lparr>x = 0, y = 0\<rparr>
      | Some rect \<Rightarrow>
          \<lparr>x = (screenX - x rect - x (offset st)) / scale st,
           y = (screenY - y rect - y (offset st)) / scale st\<rparr>)"

definition findNodeAtPosition ::
  "Position DiagramNode list \<Rightarrow> real \<Rightarrow> real \<Rightarrow> Position DiagramNode option" where
  "findNodeAtPosition ns px py =
     find (\<lambda>node.
        px \<ge> x (position node) \<and>
        px \<le> x (position node) + width (dimensions node) \<and>
        py \<ge> y (position node) \<and>
        py \<le> y (position node) + height (dimensions node)) (rev ns)"

definition getNodesInBox :: "Position DiagramNode list \<Rightarrow> Position \<times> Position \<Rightarrow> string list" where
  "getNodesInBox ns box =
     (let boxMinX = min (x (fst box)) (x (snd box));
          boxMaxX = max (x (fst box)) (x (snd box));
          boxMinY = min (y (fst box)) (y (snd box));
          boxMaxY = max (y (fst box)) (y (snd box))
      in map node_id
           (filter (\<lambda>node.
              let nodeRight = x (position node) + width (dimensions node);
                  nodeBottom = y (position node) + height (dimensions node)
              in x (position node) \<ge> boxMinX \<and> nodeRight \<le> boxMaxX \<and>
                 y (position node) \<ge> boxMinY \<and> nodeBottom \<le> boxMaxY) ns))"

definition handleKeyDown ::
  "CanvasProps \<Rightarrow> CanvasState \<Rightarrow> KeyboardEvent \<Rightarrow> CanvasState \<times> Calls" where
  "handleKeyDown props st e =
     (if key e = '' '' \<and> notEditing (editingTextNode st) \<and> targetIsBody e
      then (st\<lparr>isSpacePressed := True\<rparr>, noCalls)
      else if key e = ''Escape''
      then (st\<lparr>editingTextNode := None, selectionBox := None, isSelecting := False\<rparr>,
            noCalls\<lparr>onToolChange := [ToolSelect], onNodeSelect := [[]]\<rparr>)
      else if (key e = ''Delete'' \<or> key e = ''Backspace'') \<and>
              length (selectedNodeIds props) > 0 \<and> notEditing (editingTextNode st)
      then
        let newNodes = filter (\<lambda>n. node_id n \<notin> set (selectedNodeIds props))
                         (nodes (diagramData props));
            newEdges = filter (\<lambda>e. edge_from e \<notin> set (selectedNodeIds props) \<and>
                                     edge_to e \<notin> set (selectedNodeIds props))
                         (edges (diagramData props))
        in (st, noCalls\<lparr>setDiagramData := [(diagramData props)\<lparr>nodes := newNodes, edges := newEdges\<rparr>],
                        onNodeSelect := [[]]\<rparr>)
      else (st, noCalls))"

definition handleKeyUp :: "CanvasState \<Rightarrow> KeyboardEvent \<Rightarrow> CanvasState" where
  "handleKeyUp st e =
     (if key e = '' '' then st\<lparr>isSpacePressed := False, isPanning := False\<rparr> else st)"

definition handleMouseDown ::
  "CanvasProps \<Rightarrow> CanvasState \<Rightarrow> MouseEvent \<Rightarrow> CanvasState \<times> Calls" where
  "handleMouseDown props st e =
     (if button e \<noteq> 0 then (st, noCalls)
      else
        let canvasPos = screenToCanvas st (clientX e) (clientY e);
            clickedNode = findNodeAtPosition (nodes (diagramData props)) (x canvasPos) (y canvasPos);
            isCtrlOrCmd = (ctrlKey e \<or> metaKey e);
            sel = selectedNodeIds props
        in
        if isSpacePressed st
        then (st\<lparr>isPanning := True, lastMousePos := \<lparr>x = clientX e, y = clientY e\<rparr>\<rparr>, noCalls)
        else if selectedTool props = ToolSelect then
          (case clickedNode of
             Some clicked \<Rightarrow>
               if isCtrlOrCmd then
                 (if node_id clicked \<in> set sel
                  then (st, noCalls\<lparr>onNodeSelect := [filter (\<lambda>i. i \<noteq> node_id clicked) sel]\<rparr>)
                  else (st, noCalls\<lparr>onNodeSelect := [sel @ [node_id clicked]]\<rparr>))
               else
                 let nodesToDrag = (if node_id clicked \<in> set sel then sel else [node_id clicked]);
                     calls = (if node_id clicked \<notin> set sel
                              then noCalls\<lparr>onNodeSelect := [[node_id clicked]]\<rparr> else noCalls);
                     offsets = fold (\<lambda>i m.
                        case find (\<lambda>n. node_id n = i) (nodes (diagramData props)) of
                          Some node \<Rightarrow>
                            AList.update i \<lparr>x = x canvasPos - x (position node),
                                            y = y canvasPos - y (position node)\<rparr> m
                        | None \<Rightarrow> m) nodesToDrag []
                 in (st\<lparr>isDragging := True, dragOffsets := offsets\<rparr>, calls)
           | None \<Rightarrow>
               (st\<lparr>isSelecting := True, selectionBox := Some (canvasPos, canvasPos)\<rparr>,
                if \<not> isCtrlOrCmd then noCalls\<lparr>onNodeSelect := [[]]\<rparr> else noCalls))
        else if selectedTool props = ToolPen
        then (st\<lparr>isDrawing := True, currentPath := [canvasPos]\<rparr>, noCalls)
        else if selectedTool props = ToolText then
          (case clickedNode of
             Some clicked \<Rightarrow> (st, noCalls)
           | None \<Rightarrow>
               (case canvasRect st of
                  None \<Rightarrow> (st, noCalls)
                | Some rect \<Rightarrow>
                    (st\<lparr>textInputPos := \<lparr>x = clientX e - x rect, y = clientY e - y rect\<rparr>,
                        editingTextNode := Some ''new'',
                        textInput := []\<rparr>, noCalls)))
        else (st\<lparr>isDrawing := True, drawStart := canvasPos\<rparr>, noCalls))"

definition handleMouseMove ::
  "CanvasProps \<Rightarrow> CanvasState \<Rightarrow> MouseEvent \<Rightarrow> CanvasState" where
  "handleMouseMove props st e =
     (let canvasPos = screenToCanvas st (clientX e) (clientY e) in
      if isPanning st then
        let dx = clientX e - x (lastMousePos st);
            dy = clientY e - y (lastMousePos st)
        in st\<lparr>offset := \<lparr>x = x (offset st) + dx, y = y (offset st) + dy\<rparr>,
              lastMousePos := \<lparr>x = clientX e, y = clientY e\<rparr>\<rparr>
      else if isDragging st \<and> length (selectedNodeIds props) > 0 then
        let newTempPositions = fold (\<lambda>node m.
              if node_id node \<in> set (selectedNodeIds props) then
                (case map_of (dragOffsets st) (node_id node) of
                   Some dragOffset \<Rightarrow>
                     let newPosition = \<lparr>x = x canvasPos - x dragOffset,
                                        y = y canvasPos - y dragOffset\<rparr>;
                         constrainedPosition = constrainAndSnapPosition newPosition (dimensions node)
                     in AList.update (node_id node) constrainedPosition m
                 | None \<Rightarrow> m)
              else m) (nodes (diagramData props)) []
        in st\<lparr>tempNodePositions := newTempPositions\<rparr>
      else if isSelecting st \<and> selectionBox st \<noteq> None then
        st\<lparr>selectionBox := map_option (\<lambda>box. (fst box, canvasPos)) (selectionBox st)\<rparr>
      else if isDrawing st \<and> selectedTool props = ToolPen then
        st\<lparr>currentPath := currentPath st @ [canvasPos]\<rparr>
      else st)"

definition handleMouseUp ::
  "CanvasProps \<Rightarrow> CanvasState \<Rightarrow> MouseEvent \<Rightarrow> nat \<Rightarrow> CanvasState \<times> Calls" where
  "handleMouseUp props st e now =
     (let dd = diagramData props;
          (st1, calls1) =
            (if isDragging st \<and> length (tempNodePositions st) > 0 then
               let updatedNodes = map (\<lambda>node.
                     case map_of (tempNodePositions st) (node_id node) of
                       Some tempPos \<Rightarrow> node\<lparr>position := tempPos\<rparr>
                     | None \<Rightarrow> node) (nodes dd)
               in (st\<lparr>tempNodePositions := []\<rparr>,
                   noCalls\<lparr>setDiagramData := [dd\<lparr>nodes := updatedNodes\<rparr>]\<rparr>)
             else (st, noCalls));
          (st2, calls2) =
            (if isDrawing st \<and> selectedTool props = ToolPen \<and> length (currentPath st) > 2 then
               let newPath = \<lparr>path_id = ''path-'' @ decimal now,
                              points = currentPath st,
                              color = penColor props,
                              path_width = 2\<rparr>
               in (st1\<lparr>currentPath := []\<rparr>,
                   calls1\<lparr>setDiagramData := setDiagramData calls1 @
                     [dd\<lparr>paths := Some ((case paths dd of None \<Rightarrow> [] | Some ps \<Rightarrow> ps) @ [newPath])\<rparr>]\<rparr>)
             else if isDrawing st \<and> selectedTool props \<noteq> ToolSelect \<and>
                     selectedTool props \<noteq> ToolText \<and> selectedTool props \<noteq> ToolPen then
               let canvasPos = screenToCanvas st (clientX e) (clientY e);
                   w = \<bar>x canvasPos - x (drawStart st)\<bar>;
                   h = \<bar>y canvasPos - y (drawStart st)\<bar>
               in if w > 20 \<and> h > 20 then
                    (case asNodeType (selectedTool props) of
                       None \<Rightarrow> (st1, calls1)
                     | Some shape \<Rightarrow>
                         let newNode = \<lparr>node_id = ''node-'' @ decimal now,
                                        node_type = shape,
                                        node_text = capitalized (toolName (selectedTool props)),
                                        position = constrainAndSnapPosition
                                          \<lparr>x = min (x (drawStart st)) (x canvasPos),
                                           y = min (y (drawStart st)) (y canvasPos)\<rparr>
                                          \<lparr>width = w, height = h\<rparr>,
                                        dimensions = \<lparr>width = w, height = h\<rparr>,
                                        imageUrl = None\<rparr>
                         in (st1, calls1\<lparr>setDiagramData := setDiagramData calls1 @
                                            [dd\<lparr>nodes := nodes dd @ [newNode]\<rparr>],
                                          onToolChange := [ToolSelect]\<rparr>))
                  else (st1, calls1)
             else if isSelecting st \<and> selectionBox st \<noteq> None then
               (st1\<lparr>selectionBox := None, isSelecting := False\<rparr>,
                case selectionBox st of
                  None \<Rightarrow> calls1
                | Some box \<Rightarrow>
                    let nodesInBox = getNodesInBox (nodes dd) box
                    in if length nodesInBox > 0 then calls1\<lparr>onNodeSelect := [nodesInBox]\<rparr>
                       else calls1)
             else (st1, calls1))
      in (st2\<lparr>isPanning := False, isDragging := False, isDrawing := False\<rparr>, calls2))"

definition initialCanvasState :: "Position option \<Rightarrow> CanvasState" where
  "initialCanvasState rect =
     \<lparr>canvasRect = rect,
      offset = \<lparr>x = 0, y = 0\<rparr>,
      scale = 1,
      isPanning = False,
      isDragging = False,
      isDrawing = False,
      isSelecting = False,
      lastMousePos = \<lparr>x = 0, y = 0\<rparr>,
      dragOffsets = [],
      drawStart = \<lparr>x = 0, y = 0\<rparr>,
      selectionBox = None,
      currentPath = [],
      editingTextNode = None,
      textInput = [],
      textInputPos = \<lparr>x = 0, y = 0\<rparr>,
      isSpacePressed = False,
      tempNodePositions = []\<rparr>"

text \<open>
  A pen stroke: pointer-down, any number of pointer-moves, pointer-up, each handled in
  the state the previous one left.
\<close>

definition penStroke ::
  "CanvasProps \<Rightarrow> CanvasState \<Rightarrow> MouseEvent \<Rightarrow> MouseEvent list \<Rightarrow> MouseEvent \<Rightarrow> nat
     \<Rightarrow> CanvasState \<times> Calls" where
  "penStroke props st down moves up now =
     handleMouseUp props
       (foldl (handleMouseMove props) (fst (handleMouseDown props st down)) moves) up now"

definition noGesture :: "CanvasState \<Rightarrow> bool" where
  "noGesture st =
     (\<not> isSpacePressed st \<and> \<not> isPanning st \<and> \<not> isDragging st \<and> \<not> isSelecting st)"

definition eventPoint :: "CanvasState \<Rightarrow> MouseEvent \<Rightarrow> Position" where
  "eventPoint st e = screenToCanvas st (clientX e) (clientY e)"

definition withPath :: "Position DiagramData \<Rightarrow> DrawingPath \<Rightarrow> Position DiagramData" where
  "withPath dd p = dd\<lparr>paths := Some ((case paths dd of None \<Rightarrow> [] | Some ps \<Rightarrow> ps) @ [p])\<rparr>"

text \<open>Vocabulary for the cascading delete.\<close>

definition nodeIds :: "'p DiagramData \<Rightarrow> string set" where
  "nodeIds dd = node_id ` set (nodes dd)"

definition removedNodes :: "'p DiagramData \<Rightarrow> string list \<Rightarrow> 'p DiagramNode set" where
  "removedNodes dd sel = {n \<in> set (nodes dd). node_id n \<in> set sel}"

definition touches :: "DiagramEdge \<Rightarrow> 'p DiagramNode set \<Rightarrow> bool" where
  "touches e ns = (edge_from e \<in> node_id ` ns \<or> edge_to e \<in> node_id ` ns)"

definition noDangling :: "'p DiagramData \<Rightarrow> bool" where
  "noDangling dd =
     (\<forall>e \<in> set (edges dd). edge_from e \<in> nodeIds dd \<and> edge_to e \<in> nodeIds dd)"

section \<open>The layout engine (lib/layout.ts)\<close>

text \<open>
  \<open>autoLayout\<close> assigns to the fields of the \<open>position\<close> objects of the nodes it is
  given, so here a node holds a reference to its position object and the objects live
  in a store. A \<open>Map\<close> is an association list in insertion order: \<open>set\<close> on a key that
  is present replaces the value where it stands, as \<open>AList.update\<close> does. A
  \<open>LayoutNode\<close> is reached through the map only, so assigning to one of its fields is an
  update of the map's entry. Reading a field of \<open>undefined\<close> throws: \<open>None\<close>.
\<close>

type_synonym ref = nat

type_synonym store = "ref \<Rightarrow> Position"

record LayoutNode =
  lid :: string
  node :: "ref DiagramNode"
  level :: int
  children :: "string list"
  parents :: "string list"

type_synonym nodeMap = "(string \<times> LayoutNode) list"

definition LEVEL_SPACING :: real where "LEVEL_SPACING = 180"
definition NODE_SPACING :: real where "NODE_SPACING = 60"
definition START_X :: real where "START_X = 100"
definition START_Y :: real where "START_Y = 100"

definition initNodeMap :: "ref DiagramNode list \<Rightarrow> nodeMap" where
  "initNodeMap ns =
     fold (\<lambda>n m. AList.update (node_id n)
             \<lparr>lid = node_id n, node = n, level = 0, children = [], parents = []\<rparr> m) ns []"

definition addEdge :: "DiagramEdge \<Rightarrow> nodeMap \<Rightarrow> nodeMap" where
  "addEdge edge m =
     (case map_of m (edge_from edge) of
        None \<Rightarrow> m
      | Some src \<Rightarrow>
          (case map_of m (edge_to edge) of
             None \<Rightarrow> m
           | Some dst \<Rightarrow>
               AList.map_entry (edge_to edge) (\<lambda>l. l\<lparr>parents := parents l @ [lid src]\<rparr>)
                 (AList.map_entry (edge_from edge) (\<lambda>l. l\<lparr>children := children l @ [lid dst]\<rparr>) m)))"

definition buildGraph :: "ref DiagramNode list \<Rightarrow> DiagramEdge list \<Rightarrow> nodeMap" where
  "buildGraph ns es = fold addEdge es (initNodeMap ns)"

definition rootNodes :: "nodeMap \<Rightarrow> LayoutNode option list" where
  "rootNodes m =
     (let roots = filter (\<lambda>n. length (parents n) = 0) (map snd m)
      in if length roots = 0
         then [case map snd m of [] \<Rightarrow> None | first # _ \<Rightarrow> Some first]
         else map Some roots)"

text \<open>\<open>rootNodes.map(n => n.id)\<close>, which throws on an \<open>undefined\<close> element.\<close>

fun rootIds :: "LayoutNode option list \<Rightarrow> string list option" where
  "rootIds [] = Some []"
| "rootIds (None # rs) = None"
| "rootIds (Some n # rs) = map_option (\<lambda>ids. lid n # ids) (rootIds rs)"

definition parentLevels :: "nodeMap \<Rightarrow> LayoutNode \<Rightarrow> int list" where
  "parentLevels m current =
     filter (\<lambda>l. l \<ge> 0)
       (map (\<lambda>pid. case map_of m pid of Some p \<Rightarrow> level p | None \<Rightarrow> - 1) (parents current))"

definition settle :: "nodeMap \<Rightarrow> LayoutNode \<Rightarrow> LayoutNode" where
  "settle m current =
     (case parentLevels m current of
        [] \<Rightarrow> current
      | l # ls \<Rightarrow> current\<lparr>level := fold max ls l + 1\<rparr>)"

function bfs :: "nodeMap \<Rightarrow> string list \<Rightarrow> string list \<Rightarrow> nodeMap option" where
  "bfs m visited [] = Some m"
| "bfs m visited (currentId # queue) =
     (if currentId \<in> set visited then bfs m visited queue
      else
        (case map_of m currentId of
           None \<Rightarrow> None
         | Some current \<Rightarrow>
             bfs (AList.update currentId (settle m current) m)
                 (visited @ [currentId])
                 (queue @ children (settle m current))))"
  by pat_completeness auto
termination
proof (relation "measures [\<lambda>(m, visited, queue). card (fst ` set m - set visited),
                           \<lambda>(m, visited, queue). length queue]", goal_cases)
  case 1
  show ?case by simp
next
  case (2 m visited currentId queue)
  then show ?case by simp
next
  case (3 m visited currentId queue current)
  then have k: "currentId \<in> fst ` set m"
    by (metis domI dom_map_of_conv_image_fst)
  then have keys: "fst ` set (AList.update currentId (settle m current) m) = fst ` set m"
    by (auto simp add: AList.dom_update)
  have "fst ` set m - set (visited @ [currentId]) \<subset> fst ` set m - set visited"
    using k 3(1) by auto
  then have "card (fst ` set m - set (visited @ [currentId])) < card (fst ` set m - set visited)"
    by (intro psubset_card_mono) simp_all
  then show ?case by (simp add: keys)
qed

definition assignLevels :: "ref DiagramNode list \<Rightarrow> DiagramEdge list \<Rightarrow> nodeMap option" where
  "assignLevels ns es =
     (let m = buildGraph ns es
      in case rootIds (rootNodes m) of
           None \<Rightarrow> None
         | Some queue \<Rightarrow> bfs m [] queue)"

definition levelGroups :: "nodeMap \<Rightarrow> (int \<times> LayoutNode list) list" where
  "levelGroups m =
     fold (\<lambda>layoutNode g.
             AList.update (level layoutNode)
               ((case map_of g (level layoutNode) of None \<Rightarrow> [] | Some row \<Rightarrow> row) @ [layoutNode]) g)
          (map snd m) []"

fun placeRow :: "real \<Rightarrow> real \<Rightarrow> LayoutNode list \<Rightarrow> store \<Rightarrow> store" where
  "placeRow currentX rowY [] h = h"
| "placeRow currentX rowY (layoutNode # rest) h =
     (let r = position (node layoutNode);
          h1 = h(r := (h r)\<lparr>x := currentX\<rparr>);
          h2 = h1(r := (h1 r)\<lparr>y := rowY\<rparr>)
      in placeRow (currentX + width (dimensions (node layoutNode)) + NODE_SPACING) rowY rest h2)"

definition placeLevel :: "int \<times> LayoutNode list \<Rightarrow> store \<Rightarrow> store" where
  "placeLevel g h =
     (let levelNodes = snd g;
          totalWidth = foldl (\<lambda>s ln. s + width (dimensions (node ln))) 0 levelNodes;
          totalSpacing = (real (length levelNodes) - 1) * NODE_SPACING;
          totalRowWidth = totalWidth + totalSpacing
      in placeRow (START_X - totalRowWidth / 2) (START_Y + of_int (fst g) * LEVEL_SPACING)
           levelNodes h)"

definition autoLayout :: "ref DiagramData \<Rightarrow> store \<Rightarrow> (ref DiagramData \<times> store) option" where
  "autoLayout dd h =
     (if length (nodes dd) = 0 then Some (dd, h)
      else
        (case assignLevels (nodes dd) (edges dd) of
           None \<Rightarrow> None
         | Some m \<Rightarrow>
             Some (\<lparr>nodes = nodes dd, edges = edges dd, paths = None\<rparr>,
                   fold placeLevel (levelGroups m) h)))"

text \<open>What a reader of the result sees: the level of a node id, the position of a node.\<close>

definition levelOf :: "nodeMap \<Rightarrow> string \<Rightarrow> int option" where
  "levelOf m i = map_option level (map_of m i)"

definition positionsOf :: "ref DiagramData \<Rightarrow> store \<Rightarrow> Position list" where
  "positionsOf dd h = map (\<lambda>n. h (position n)) (nodes dd)"

text \<open>A store with some objects overwritten.\<close>

definition overlay :: "(ref \<rightharpoonup> Position) \<Rightarrow> store \<Rightarrow> store" where
  "overlay w h = (\<lambda>r. case w r of None \<Rightarrow> h r | Some p \<Rightarrow> p)"

text \<open>
  A node map is well formed for a node list when every entry is stored under its own
  id, the children of every entry are keys of the map, and every entry wraps a node of
  the list.
\<close>

definition wfMap :: "ref DiagramNode list \<Rightarrow> nodeMap \<Rightarrow> bool" where
  "wfMap ns m =
     (\<forall>p \<in> set m. lid (snd p) = fst p \<and> set (children (snd p)) \<subseteq> fst ` set m \<and>
                   node (snd p) \<in> set ns)"

text \<open>The layout nodes held by the rows of the level groups.\<close>

definition rowMembers :: "(int \<times> LayoutNode list) list \<Rightarrow> LayoutNode set" where
  "rowMembers g = (\<Union>p \<in> set g. set (snd p))"

section \<open>The editor (components/DiagramEditor.tsx): import of a document\<close>

text \<open>
  The value \<open>JSON.parse\<close> returns. An object is the list of its own properties. The
  cast \<open>as DiagramData\<close> does nothing at run time: it is the parameter \<open>asDiagramData\<close>,
  the document the editor sees in the parsed value.
\<close>

datatype json =
    JNull
  | JBool bool
  | JNumber real
  | JString string
  | JArray "json list"
  | JObject "(string \<times> json) list"

datatype SaveStatus = Idle | Saving | Saved | Unsaved

record 'd Editor =
  ed_history :: "'d hook"
  ed_selectedNodeIds :: "string list"
  ed_error :: "string option"
  ed_saveStatus :: SaveStatus
  ed_saveTimeout :: "'d option"

text \<open>
  \<open>importedData.nodes\<close>: reading a property of \<open>null\<close> throws a \<open>TypeError\<close>
  (\<open>Inl\<close> with its message); a value that has no such property gives \<open>undefined\<close>
  (\<open>None\<close>).
\<close>

definition nullPropertyMessage :: string where
  "nullPropertyMessage = ''Cannot read properties of null''"

fun getNodes :: "json \<Rightarrow> string + json option" where
  "getNodes JNull = Inl nullPropertyMessage"
| "getNodes (JObject props) = Inr (map_of props ''nodes'')"
| "getNodes _ = Inr None"

fun falsy :: "json option \<Rightarrow> bool" where
  "falsy None = True"
| "falsy (Some JNull) = True"
| "falsy (Some (JBool b)) = (\<not> b)"
| "falsy (Some (JNumber n)) = (n = 0)"
| "falsy (Some (JString s)) = (s = [])"
| "falsy (Some (JArray vs)) = False"
| "falsy (Some (JObject props)) = False"

fun isArray :: "json option \<Rightarrow> bool" where
  "isArray (Some (JArray vs)) = True"
| "isArray _ = False"

definition debouncedSave :: "'d Editor \<Rightarrow> 'd \<Rightarrow> 'd Editor" where
  "debouncedSave ed d = ed\<lparr>ed_saveStatus := Unsaved, ed_saveTimeout := Some d\<rparr>"

definition updateDiagramData :: "'d Editor \<Rightarrow> 'd \<Rightarrow> 'd Editor" where
  "updateDiagramData ed newData =
     debouncedSave (ed\<lparr>ed_history := setState (ed_history ed) newData False\<rparr>) newData"

text \<open>
  The \<open>onchange\<close> handler of the file input. Its argument is \<open>None\<close> when no file was
  chosen, and else what \<open>JSON.parse\<close> did with the file's text: \<open>Inl\<close> the message of
  the \<open>SyntaxError\<close> it threw, or \<open>Inr\<close> the value it returned.
\<close>

definition handleImport ::
  "(json \<Rightarrow> 'd) \<Rightarrow> 'd Editor \<Rightarrow> (string + json) option \<Rightarrow> 'd Editor" where
  "handleImport asDiagramData ed file =
     (case file of
        None \<Rightarrow> ed
      | Some (Inl syntaxError) \<Rightarrow> ed\<lparr>ed_error := Some syntaxError\<rparr>
      | Some (Inr importedData) \<Rightarrow>
          (case getNodes importedData of
             Inl typeError \<Rightarrow> ed\<lparr>ed_error := Some typeError\<rparr>
           | Inr field \<Rightarrow>
               if falsy field \<or> \<not> isArray field
               then ed\<lparr>ed_error := Some ''Invalid diagram format''\<rparr>
               else
                 debouncedSave
                   (ed\<lparr>ed_history := setState (ed_history ed) (asDiagramData importedData) False,
                       ed_selectedNodeIds := []\<rparr>)
                   (asDiagramData importedData)))"

section \<open>Example inputs\<close>

text \<open>Concrete inputs at which the theorems below are instantiated.\<close>

abbreviation (input) exampleNode :: "string \<Rightarrow> 'p \<Rightarrow> real \<Rightarrow> 'p DiagramNode" where
  "exampleNode i p w \<equiv>
     \<lparr>node_id = i, node_type = Rectangle, node_text = i, position = p,
      dimensions = \<lparr>width = w, height = 80\<rparr>, imageUrl = None\<rparr>"

abbreviation (input) exampleEdge :: "string \<Rightarrow> string \<Rightarrow> string \<Rightarrow> DiagramEdge" where
  "exampleEdge k i j \<equiv> \<lparr>edge_id = k, edge_from = i, edge_to = j, edge_label = None\<rparr>"

abbreviation (input) originStore :: store where
  "originStore \<equiv> (\<lambda>r. \<lparr>x = 0, y = 0\<rparr>)"

abbreviation (input) penProps :: CanvasProps where
  "penProps \<equiv>
     \<lparr>diagramData = \<lparr>nodes = [], edges = [], paths = Some []\<rparr>,
      selectedNodeIds = [], selectedTool = ToolPen, penColor = ''#000000''\<rparr>"

abbreviation (input) idleCanvas :: CanvasState where
  "idleCanvas \<equiv> initialCanvasState (Some \<lparr>x = 0, y = 0\<rparr>)"

abbreviation (input) leftButtonAt :: "real \<Rightarrow> real \<Rightarrow> MouseEvent" where
  "leftButtonAt a b \<equiv> \<lparr>button = 0, clientX = a, clientY = b, ctrlKey = False, metaKey = False\<rparr>"

abbreviation (input) chainDocument :: "Position DiagramData" where
  "chainDocument \<equiv>
     \<lparr>nodes = [exampleNode ''a'' \<lparr>x = 100, y = 100\<rparr> 180,
               exampleNode ''b'' \<lparr>x = 400, y = 100\<rparr> 180,
               exampleNode ''c'' \<lparr>x = 700, y = 100\<rparr> 180],
      edges = [exampleEdge ''e1'' ''a'' ''b'', exampleEdge ''e2'' ''b'' ''c''],
      paths = None\<rparr>"

abbreviation (input) cycleNodes :: "ref DiagramNode list" where
  "cycleNodes \<equiv> [exampleNode ''A'' 10 180, exampleNode ''B'' 20 180, exampleNode ''C'' 30 180]"

abbreviation (input) cycleEdges :: "DiagramEdge list" where
  "cycleEdges \<equiv>
     [exampleEdge ''AB'' ''A'' ''B'', exampleEdge ''BC'' ''B'' ''C'', exampleEdge ''CA'' ''C'' ''A'']"

section \<open>Properties of the history hook\<close>

subsection \<open>Undo and redo\<close>

text \<open>
  Claim C1. In every state whose past is non-empty, \<open>undo\<close> makes the last entry of
  the past the present and puts the old present at the front of the future; right after
  a commit that entry is the present the commit replaced; and a following \<open>redo\<close>
  gives back the same past, present and future.
\<close>

theorem undo_redo_roundtrip:
  "(past (history s) \<noteq> [] \<longrightarrow>
      present (history (fst (undo s))) = last (past (history s)) \<and>
      past (history (fst (undo s))) = butlast (past (history s)) \<and>
      future (history (fst (undo s))) = present (history s) # future (history s) \<and>
      snd (undo s) = Some (last (past (history s))) \<and>
      history (fst (redo (fst (undo s)))) = history s \<and>
      snd (redo (fst (undo s))) = Some (present (history s))) \<and>
   (\<not> isUndoRedoAction s0 \<longrightarrow>
      past (history (setState s0 d False)) \<noteq> [] \<and>
      present (history (fst (undo (setState s0 d False)))) = present (history s0))"
proof (intro conjI impI)
  assume f: "\<not> isUndoRedoAction s0"
  show ne: "past (history (setState s0 d False)) \<noteq> []"
  proof (cases "past (history s0)")
    case Nil
    with f show ?thesis
      by (simp add: setState_def Let_def MAX_HISTORY_SIZE_def)
  next
    case (Cons q qs)
    with f show ?thesis
      by (simp add: setState_def Let_def MAX_HISTORY_SIZE_def)
  qed
  have "last (past (history (setState s0 d False))) = present (history s0)"
  proof (cases "past (history s0)")
    case Nil
    with f show ?thesis
      by (simp add: setState_def Let_def MAX_HISTORY_SIZE_def)
  next
    case (Cons q qs)
    with f show ?thesis
      by (simp add: setState_def Let_def MAX_HISTORY_SIZE_def)
  qed
  with ne show "present (history (fst (undo (setState s0 d False)))) = present (history s0)"
    by (simp add: undo_def canUndo_def Let_def)
qed (simp_all add: undo_def redo_def canUndo_def canRedo_def Let_def)

theorem undo_redo_roundtrip_witness:
  "past (history (commitAll (useHistory (0::int)) [1, 2, 3])) = [0, 1, 2] \<and>
   present (history (fst (undo (commitAll (useHistory (0::int)) [1, 2, 3])))) = 2 \<and>
   future (history (fst (undo (commitAll (useHistory (0::int)) [1, 2, 3])))) = [3] \<and>
   history (fst (redo (fst (undo (commitAll (useHistory (0::int)) [1, 2, 3]))))) =
     \<lparr>past = [0, 1, 2], present = 3, future = []\<rparr> \<and>
   \<not> isUndoRedoAction (useHistory (0::int)) \<and>
   present (history (fst (undo (setState (useHistory (0::int)) 1 False)))) = 0"
proof -
  have p: "history (commitAll (useHistory (0::int)) [1, 2, 3]) =
      \<lparr>past = [0, 1, 2], present = 3, future = []\<rparr>"
    by (simp add: commitAll_def setState_def useHistory_def Let_def MAX_HISTORY_SIZE_def)
  have f: "\<not> isUndoRedoAction (useHistory (0::int))"
    by (simp add: useHistory_def)
  have q: "present (history (useHistory (0::int))) = 0"
    by (simp add: useHistory_def)
  from undo_redo_roundtrip [of "commitAll (useHistory (0::int)) [1, 2, 3]" "useHistory (0::int)" 1]
  show ?thesis by (simp add: p f q)
qed

subsection \<open>The bound on the past\<close>

lemma withinBound_useHistory: "withinBound (useHistory d)"
  by (simp add: withinBound_def useHistory_def)

lemma withinBound_setState: "withinBound s \<Longrightarrow> withinBound (setState s d skip)"
  by (auto simp add: withinBound_def setState_def Let_def MAX_HISTORY_SIZE_def)

lemma withinBound_undo: "withinBound s \<Longrightarrow> withinBound (fst (undo s))"
  by (cases "past (history s)" rule: rev_cases)
     (auto simp add: withinBound_def undo_def canUndo_def Let_def)

lemma withinBound_redo: "withinBound s \<Longrightarrow> withinBound (fst (redo s))"
  by (cases "future (history s)")
     (auto simp add: withinBound_def redo_def canRedo_def Let_def)

lemma withinBound_step: "withinBound s \<Longrightarrow> withinBound (step s a)"
  by (cases a)
     (simp_all add: withinBound_setState withinBound_undo withinBound_redo,
      simp_all add: withinBound_def reset_def timeoutFires_def)

lemma withinBound_run: "withinBound s \<Longrightarrow> withinBound (run s acts)"
  unfolding run_def
  by (induction acts arbitrary: s) (simp_all add: withinBound_step)

lemma drop_of_suffix:
  "k \<le> length zs - n \<Longrightarrow>
   drop (length (drop k zs) - n) (drop k zs) = drop (length zs - n) (zs::'a list)"
proof -
  assume "k \<le> length zs - n"
  then have "length zs - (k + n) + k = length zs - n" by arith
  then show ?thesis by simp
qed

lemma commit_timeline:
  assumes "\<not> isUndoRedoAction s" and "length (past (history s)) \<le> MAX_HISTORY_SIZE"
  shows "timeline (setState s d False) =
         drop (length (timeline s @ [d]) - 51) (timeline s @ [d])"
proof -
  have eq: "timeline (setState s d False) =
      (if length (timeline s) > 50 then tl (timeline s) else timeline s) @ [d]"
    using assms(1) by (simp add: timeline_def setState_def Let_def MAX_HISTORY_SIZE_def)
  have len: "length (timeline s) \<le> 51"
    using assms(2) by (simp add: timeline_def MAX_HISTORY_SIZE_def)
  show ?thesis
  proof (cases "length (timeline s) = 51")
    case True
    then have "length (timeline s @ [d]) - 51 = Suc 0" by simp
    moreover have "timeline s \<noteq> []" using True by auto
    ultimately show ?thesis
      using True by (simp add: eq drop_Suc del: length_append)
  next
    case False
    with len have "length (timeline s) \<le> 50" by simp
    then show ?thesis by (simp add: eq)
  qed
qed

lemma commit_flag: "\<not> isUndoRedoAction s \<Longrightarrow> \<not> isUndoRedoAction (setState s d False)"
  by (simp add: setState_def Let_def)

lemma commit_length:
  "\<not> isUndoRedoAction s \<Longrightarrow> length (past (history s)) \<le> MAX_HISTORY_SIZE \<Longrightarrow>
   length (past (history (setState s d False))) \<le> MAX_HISTORY_SIZE"
  by (simp add: setState_def Let_def)

lemma commitAll_timeline:
  "\<not> isUndoRedoAction s \<Longrightarrow> length (past (history s)) \<le> MAX_HISTORY_SIZE \<Longrightarrow>
   timeline (commitAll s ds) = drop (length (timeline s @ ds) - 51) (timeline s @ ds)"
proof (induction ds arbitrary: s)
  case Nil
  then show ?case
    by (simp add: commitAll_def timeline_def MAX_HISTORY_SIZE_def)
next
  case (Cons d ds)
  let ?t = "setState s d False"
  let ?Y = "timeline s @ [d]"
  let ?k = "length ?Y - 51"
  have step: "commitAll s (d # ds) = commitAll ?t ds"
    by (simp add: commitAll_def)
  have t: "timeline ?t = drop ?k ?Y"
    using commit_timeline [OF Cons.prems] .
  have "timeline ?t @ ds = drop ?k (?Y @ ds)"
    unfolding t by simp
  moreover have "timeline (commitAll ?t ds) =
        drop (length (timeline ?t @ ds) - 51) (timeline ?t @ ds)"
    using Cons.IH [of ?t] commit_flag [OF Cons.prems(1)] commit_length [OF Cons.prems]
    by simp
  ultimately have "timeline (commitAll ?t ds) =
      drop (length (drop ?k (?Y @ ds)) - 51) (drop ?k (?Y @ ds))"
    by simp
  also have "\<dots> = drop (length (?Y @ ds) - 51) (?Y @ ds)"
    by (rule drop_of_suffix) simp
  finally show ?case
    by (simp add: step)
qed

lemma timeline_past: "timeline s = xs \<Longrightarrow> xs \<noteq> [] \<Longrightarrow>
    past (history s) = butlast xs \<and> present (history s) = last xs"
  by (auto simp add: timeline_def)

text \<open>
  Claim C2. From an initial state, no run of setState (committing or with skipHistory),
  undo, redo, reset and timer callbacks makes the past longer than 50. After 50 commits
  \<open>ds\<close> from the initial document \<open>d0\<close> the past is \<open>d0\<close> followed by the first 49
  committed documents, nothing evicted; after 51 commits the past holds the first 50
  committed documents in order: of the 51 entries pushed, \<open>d0\<close> (the oldest) alone is
  gone. In general a commit on a full past drops the head of the past and appends the
  old present.
\<close>

theorem past_bounded_fifo:
  "length (past (history (run (useHistory d0) acts))) \<le> 50 \<and>
   (length es = 50 \<longrightarrow>
      past (history (commitAll (useHistory d0) es)) = d0 # butlast es) \<and>
   (length ds = 51 \<longrightarrow>
      past (history (commitAll (useHistory d0) ds)) = butlast ds \<and>
      length (past (history (commitAll (useHistory d0) ds))) = 50 \<and>
      present (history (commitAll (useHistory d0) ds)) = last ds) \<and>
   (\<not> isUndoRedoAction s \<and> length (past (history s)) = 50 \<longrightarrow>
      past (history (setState s d False)) = tl (past (history s)) @ [present (history s)])"
proof (intro conjI impI)
  have "withinBound (run (useHistory d0) acts)"
    by (rule withinBound_run [OF withinBound_useHistory])
  then show "length (past (history (run (useHistory d0) acts))) \<le> 50"
    by (simp add: withinBound_def MAX_HISTORY_SIZE_def)
next
  have init: "\<not> isUndoRedoAction (useHistory d0)"
    "length (past (history (useHistory d0))) \<le> MAX_HISTORY_SIZE"
    "timeline (useHistory d0) = [d0]"
    by (simp_all add: useHistory_def timeline_def)
  {
    assume l: "length es = 50"
    then have ne: "es \<noteq> []" by auto
    have "timeline (commitAll (useHistory d0) es) = d0 # es"
      using commitAll_timeline [OF init(1,2), of es] l by (simp add: init(3))
    from timeline_past [OF this] ne
    show "past (history (commitAll (useHistory d0) es)) = d0 # butlast es"
      by simp
  }
  {
    assume l: "length ds = 51"
    then have ne: "ds \<noteq> []" by auto
    have "timeline (commitAll (useHistory d0) ds) = ds"
      using commitAll_timeline [OF init(1,2), of ds] l by (simp add: init(3))
    from timeline_past [OF this ne]
    show "past (history (commitAll (useHistory d0) ds)) = butlast ds"
      and "present (history (commitAll (useHistory d0) ds)) = last ds"
      by simp_all
    then show "length (past (history (commitAll (useHistory d0) ds))) = 50"
      using l by simp
  }
next
  assume "\<not> isUndoRedoAction s \<and> length (past (history s)) = 50"
  then show "past (history (setState s d False)) = tl (past (history s)) @ [present (history s)]"
    by (cases "past (history s)")
       (simp_all add: setState_def Let_def MAX_HISTORY_SIZE_def)
qed

theorem past_bounded_fifo_witness:
  "length (past (history (run (useHistory (0::nat)) [SetState 5 False, Undo, Redo]))) \<le> 50 \<and>
   length [1..<51] = 50 \<and>
   past (history (commitAll (useHistory (0::nat)) [1..<51])) = 0 # butlast [1..<51] \<and>
   length [1..<52] = 51 \<and>
   past (history (commitAll (useHistory (0::nat)) [1..<52])) = butlast [1..<52] \<and>
   present (history (commitAll (useHistory (0::nat)) [1..<52])) = last [1..<52] \<and>
   \<not> isUndoRedoAction
      \<lparr>history = \<lparr>past = replicate 50 (0::nat), present = 7, future = []\<rparr>,
       isUndoRedoAction = False\<rparr> \<and>
   length (replicate 50 (0::nat)) = 50 \<and>
   past (history (setState
      \<lparr>history = \<lparr>past = replicate 50 (0::nat), present = 7, future = []\<rparr>,
       isUndoRedoAction = False\<rparr> 9 False)) = tl (replicate 50 0) @ [7]"
  using past_bounded_fifo [of "0::nat" "[SetState 5 False, Undo, Redo]" "[1..<51]" "[1..<52]"
      "\<lparr>history = \<lparr>past = replicate 50 (0::nat), present = 7, future = []\<rparr>,
        isUndoRedoAction = False\<rparr>" 9]
  by simp

section \<open>Properties of the geometry\<close>

subsection \<open>Clamping\<close>

text \<open>
  Claim C5. Clamping is idempotent for every position and all dimensions, and when the
  shape is no wider than \<open>maxX - minX\<close> and no higher than \<open>maxY - minY\<close> the
  clamped position is within the bounds.
\<close>

theorem constrainPosition_idempotent_within:
  "constrainPosition (constrainPosition p d) d = constrainPosition p d \<and>
   (width d \<le> maxX - minX \<and> height d \<le> maxY - minY \<longrightarrow>
      isWithinBounds (constrainPosition p d) d)"
  by (auto simp add: constrainPosition_def isWithinBounds_def min_def max_def)

theorem constrainPosition_idempotent_within_witness:
  "width \<lparr>width = 100, height = 200\<rparr> \<le> maxX - minX \<and>
   height \<lparr>width = 100, height = 200\<rparr> \<le> maxY - minY \<and>
   constrainPosition \<lparr>x = 3000, y = - 10\<rparr> \<lparr>width = 100, height = 200\<rparr> =
     \<lparr>x = 2850, y = 50\<rparr> \<and>
   isWithinBounds (constrainPosition \<lparr>x = 3000, y = - 10\<rparr> \<lparr>width = 100, height = 200\<rparr>)
     \<lparr>width = 100, height = 200\<rparr>"
  using constrainPosition_idempotent_within
    [of "\<lparr>x = 3000, y = - 10\<rparr>" "\<lparr>width = 100, height = 200\<rparr>"]
  by (simp add: constrainPosition_def minX_def minY_def maxX_def maxY_def)

section \<open>Properties of the canvas controller\<close>

subsection \<open>The pen tool\<close>

lemma pen_up:
  assumes "selectedTool props = ToolPen" and "isDrawing st" and "\<not> isDragging st"
  shows "setDiagramData (snd (handleMouseUp props st e now)) =
           (if length (currentPath st) > 2
            then [withPath (diagramData props)
                    \<lparr>path_id = ''path-'' @ decimal now, points = currentPath st,
                     color = penColor props, path_width = 2\<rparr>]
            else [])"
    and "currentPath (fst (handleMouseUp props st e now)) =
           (if length (currentPath st) > 2 then [] else currentPath st)"
    and "\<not> isDrawing (fst (handleMouseUp props st e now))"
  using assms
  by (simp_all add: handleMouseUp_def Let_def noCalls_def withPath_def split: option.split)

lemma pen_down:
  assumes "selectedTool props = ToolPen" and "noGesture st" and "button e = 0"
  shows "fst (handleMouseDown props st e) = st\<lparr>isDrawing := True, currentPath := [eventPoint st e]\<rparr>"
  using assms
  by (simp add: handleMouseDown_def Let_def noGesture_def eventPoint_def)

lemma pen_move:
  assumes "selectedTool props = ToolPen" and "isDrawing st" and "\<not> isPanning st"
    and "\<not> isDragging st" and "\<not> isSelecting st"
  shows "handleMouseMove props st e = st\<lparr>currentPath := currentPath st @ [eventPoint st e]\<rparr>"
  using assms
  by (simp add: handleMouseMove_def Let_def eventPoint_def)

lemma eventPoint_currentPath [simp]:
  "eventPoint (st\<lparr>currentPath := ps\<rparr>) e = eventPoint st e"
  by (simp add: eventPoint_def screenToCanvas_def split: option.split)

lemma eventPoint_isDrawing [simp]:
  "eventPoint (st\<lparr>isDrawing := b\<rparr>) e = eventPoint st e"
  by (simp add: eventPoint_def screenToCanvas_def split: option.split)

lemma pen_moves:
  assumes "selectedTool props = ToolPen" and "isDrawing st" and "\<not> isPanning st"
    and "\<not> isDragging st" and "\<not> isSelecting st"
  shows "foldl (handleMouseMove props) st moves =
         st\<lparr>currentPath := currentPath st @ map (eventPoint st) moves\<rparr>"
  using assms
proof (induction moves arbitrary: st)
  case Nil
  then show ?case by simp
next
  case (Cons e moves)
  let ?st = "st\<lparr>currentPath := currentPath st @ [eventPoint st e]\<rparr>"
  have "foldl (handleMouseMove props) st (e # moves) =
        foldl (handleMouseMove props) ?st moves"
    using pen_move [OF Cons.prems, of e] by simp
  also have "\<dots> = ?st\<lparr>currentPath := currentPath ?st @ map (eventPoint ?st) moves\<rparr>"
    using Cons.prems by (intro Cons.IH) simp_all
  finally show ?case by simp
qed

text \<open>
  Claim C4, as the code has it. With the pen tool, a stroke begun with no other gesture
  in progress accumulates the canvas point of the pointer-down and of every
  pointer-move. Pointer-up hands exactly one new document to \<open>setDiagramData\<close> when
  more than 2 points were accumulated, that is after at least 2 moves: the old document
  with one more path, made of those points, the current pen colour and width 2. With 2
  points or fewer it makes no call, so the document stays as it was.
\<close>

theorem pen_stroke_commits_above_two_points:
  assumes "selectedTool props = ToolPen" and "noGesture st" and "button down = 0"
  shows "setDiagramData (snd (penStroke props st down moves up now)) =
           (if length (down # moves) > 2
            then [withPath (diagramData props)
                    \<lparr>path_id = ''path-'' @ decimal now,
                     points = map (eventPoint st) (down # moves),
                     color = penColor props, path_width = 2\<rparr>]
            else [])"
proof -
  let ?s1 = "st\<lparr>isDrawing := True, currentPath := [eventPoint st down]\<rparr>"
  let ?s2 = "?s1\<lparr>currentPath := currentPath ?s1 @ map (eventPoint ?s1) moves\<rparr>"
  have flags: "\<not> isPanning st" "\<not> isDragging st" "\<not> isSelecting st"
    using assms(2) by (simp_all add: noGesture_def)
  have d: "fst (handleMouseDown props st down) = ?s1"
    by (rule pen_down [OF assms])
  have m: "foldl (handleMouseMove props) ?s1 moves = ?s2"
    using flags by (intro pen_moves [OF assms(1)]) simp_all
  have pts: "currentPath ?s2 = map (eventPoint st) (down # moves)"
    by simp
  have "setDiagramData (snd (handleMouseUp props ?s2 up now)) =
           (if length (currentPath ?s2) > 2
            then [withPath (diagramData props)
                    \<lparr>path_id = ''path-'' @ decimal now, points = currentPath ?s2,
                     color = penColor props, path_width = 2\<rparr>]
            else [])"
    using flags by (intro pen_up(1) [OF assms(1)]) simp_all
  then show ?thesis
    unfolding penStroke_def d m pts by simp
qed

lemma decimal_7: "decimal 7 = ''7''"
  by code_simp

theorem pen_stroke_commits_above_two_points_witness:
  "selectedTool penProps = ToolPen \<and> noGesture idleCanvas \<and> button (leftButtonAt 10 10) = 0 \<and>
   setDiagramData (snd (penStroke penProps idleCanvas (leftButtonAt 10 10)
       [leftButtonAt 20 20, leftButtonAt 30 40] (leftButtonAt 30 40) 7)) =
     [\<lparr>nodes = [], edges = [],
       paths = Some [\<lparr>path_id = ''path-7'',
                      points = [\<lparr>x = 10, y = 10\<rparr>, \<lparr>x = 20, y = 20\<rparr>, \<lparr>x = 30, y = 40\<rparr>],
                      color = ''#000000'', path_width = 2\<rparr>]\<rparr>]"
  using pen_stroke_commits_above_two_points
    [of penProps idleCanvas "leftButtonAt 10 10" "[leftButtonAt 20 20, leftButtonAt 30 40]"
        "leftButtonAt 30 40" 7]
    decimal_7
  by (simp add: noGesture_def initialCanvasState_def eventPoint_def
      screenToCanvas_def withPath_def del: decimal.simps)

text \<open>
  Claim C4 as stated fails at a stroke of exactly 2 points (pointer-down, one
  pointer-move, pointer-up): 2 points are accumulated and nothing is handed to
  \<open>setDiagramData\<close>.
\<close>

theorem pen_two_point_stroke_discarded:
  "currentPath (foldl (handleMouseMove penProps)
      (fst (handleMouseDown penProps idleCanvas (leftButtonAt 10 10))) [leftButtonAt 20 20]) =
     [\<lparr>x = 10, y = 10\<rparr>, \<lparr>x = 20, y = 20\<rparr>] \<and>
   setDiagramData (snd (penStroke penProps idleCanvas (leftButtonAt 10 10)
       [leftButtonAt 20 20] (leftButtonAt 20 20) 7)) = []"
  by (simp add: penStroke_def handleMouseUp_def handleMouseMove_def
      handleMouseDown_def initialCanvasState_def screenToCanvas_def findNodeAtPosition_def
      noCalls_def)

subsection \<open>Deleting the selection\<close>

lemma removed_id:
  "i \<in> set sel \<Longrightarrow> i \<in> nodeIds dd \<Longrightarrow> i \<in> node_id ` removedNodes dd sel"
  by (auto simp add: nodeIds_def removedNodes_def)

text \<open>
  Claim C6. Delete or Backspace, with a non-empty selection and no text edit open, hands
  one document to \<open>setDiagramData\<close>. Its nodes are the old nodes, in order, without
  those whose id is selected; its edges are old edges, in order and unchanged; an edge
  touching a removed node is gone; when the selection holds ids of nodes of the document
  only (or no edge dangles), an edge touching no removed node is kept; the paths are
  kept; and no edge of the result dangles if none did before.
\<close>

theorem delete_removes_selected_and_touching_edges:
  assumes "key e = ''Delete'' \<or> key e = ''Backspace''"
    and "selectedNodeIds props \<noteq> []"
    and "editingTextNode st = None"
  shows "\<exists>doc. setDiagramData (snd (handleKeyDown props st e)) = [doc] \<and>
      nodes doc = filter (\<lambda>n. n \<notin> removedNodes (diagramData props) (selectedNodeIds props))
                    (nodes (diagramData props)) \<and>
      (\<forall>n \<in> set (nodes doc). node_id n \<notin> set (selectedNodeIds props)) \<and>
      (\<exists>keep. edges doc = filter keep (edges (diagramData props))) \<and>
      (\<forall>d \<in> set (edges (diagramData props)).
          touches d (removedNodes (diagramData props) (selectedNodeIds props)) \<longrightarrow>
          d \<notin> set (edges doc)) \<and>
      (set (selectedNodeIds props) \<subseteq> nodeIds (diagramData props) \<or> noDangling (diagramData props) \<longrightarrow>
       (\<forall>d \<in> set (edges (diagramData props)).
          \<not> touches d (removedNodes (diagramData props) (selectedNodeIds props)) \<longrightarrow>
          d \<in> set (edges doc))) \<and>
      paths doc = paths (diagramData props) \<and>
      (noDangling (diagramData props) \<longrightarrow> noDangling doc)"
proof -
  let ?dd = "diagramData props"
  let ?sel = "selectedNodeIds props"
  let ?keep = "\<lambda>d. edge_from d \<notin> set ?sel \<and> edge_to d \<notin> set ?sel"
  let ?doc = "?dd\<lparr>nodes := filter (\<lambda>n. node_id n \<notin> set ?sel) (nodes ?dd),
                    edges := filter ?keep (edges ?dd)\<rparr>"
  have k: "key e \<noteq> '' ''" "key e \<noteq> ''Escape''"
    using assms(1) by auto
  have call: "setDiagramData (snd (handleKeyDown props st e)) = [?doc]"
    using assms k by (simp add: handleKeyDown_def Let_def noCalls_def notEditing_def)
  have n1: "nodes ?doc = filter (\<lambda>n. n \<notin> removedNodes ?dd ?sel) (nodes ?dd)"
    by (auto simp add: removedNodes_def intro: filter_cong)
  have n2: "\<forall>n \<in> set (nodes ?doc). node_id n \<notin> set ?sel"
    by simp
  have e1: "\<exists>keep. edges ?doc = filter keep (edges ?dd)"
    by auto
  have e2: "\<forall>d \<in> set (edges ?dd). touches d (removedNodes ?dd ?sel) \<longrightarrow> d \<notin> set (edges ?doc)"
    by (auto simp add: touches_def removedNodes_def)
  have e3: "set ?sel \<subseteq> nodeIds ?dd \<or> noDangling ?dd \<longrightarrow>
      (\<forall>d \<in> set (edges ?dd). \<not> touches d (removedNodes ?dd ?sel) \<longrightarrow> d \<in> set (edges ?doc))"
  proof (intro impI ballI)
    fix d
    assume h: "set ?sel \<subseteq> nodeIds ?dd \<or> noDangling ?dd"
      and d: "d \<in> set (edges ?dd)"
      and nt: "\<not> touches d (removedNodes ?dd ?sel)"
    have "edge_from d \<notin> set ?sel"
    proof
      assume a: "edge_from d \<in> set ?sel"
      have "edge_from d \<in> nodeIds ?dd"
        using h a d by (auto simp add: noDangling_def)
      from removed_id [OF a this] nt show False
        by (simp add: touches_def)
    qed
    moreover have "edge_to d \<notin> set ?sel"
    proof
      assume a: "edge_to d \<in> set ?sel"
      have "edge_to d \<in> nodeIds ?dd"
        using h a d by (auto simp add: noDangling_def)
      from removed_id [OF a this] nt show False
        by (simp add: touches_def)
    qed
    ultimately show "d \<in> set (edges ?doc)"
      using d by simp
  qed
  have p: "paths ?doc = paths ?dd"
    by simp
  have nd: "noDangling ?dd \<longrightarrow> noDangling ?doc"
  proof
    assume a: "noDangling ?dd"
    show "noDangling ?doc"
      unfolding noDangling_def
    proof
      fix d
      assume "d \<in> set (edges ?doc)"
      then have d: "d \<in> set (edges ?dd)" "edge_from d \<notin> set ?sel" "edge_to d \<notin> set ?sel"
        by simp_all
      from a d(1) obtain n m where "n \<in> set (nodes ?dd)" "edge_from d = node_id n"
        "m \<in> set (nodes ?dd)" "edge_to d = node_id m"
        by (auto simp add: noDangling_def nodeIds_def)
      with d(2,3) have "n \<in> set (nodes ?doc) \<and> m \<in> set (nodes ?doc) \<and>
          edge_from d = node_id n \<and> edge_to d = node_id m"
        by simp
      then show "edge_from d \<in> nodeIds ?doc \<and> edge_to d \<in> nodeIds ?doc"
        unfolding nodeIds_def by blast
    qed
  qed
  from call n1 n2 e1 e2 e3 p nd show ?thesis
    by blast
qed

theorem delete_removes_selected_and_touching_edges_witness:
  "key \<lparr>key = ''Delete'', targetIsBody = True\<rparr> = ''Delete'' \<and>
   [''a''] \<noteq> [] \<and> editingTextNode (initialCanvasState None) = None \<and>
   set [''a''] \<subseteq> nodeIds chainDocument \<and> noDangling chainDocument \<and>
   setDiagramData (snd (handleKeyDown
       \<lparr>diagramData = chainDocument, selectedNodeIds = [''a''], selectedTool = ToolSelect,
        penColor = ''#000000''\<rparr>
       (initialCanvasState None) \<lparr>key = ''Delete'', targetIsBody = True\<rparr>)) =
     [\<lparr>nodes = [exampleNode ''b'' \<lparr>x = 400, y = 100\<rparr> 180,
                exampleNode ''c'' \<lparr>x = 700, y = 100\<rparr> 180],
       edges = [exampleEdge ''e2'' ''b'' ''c''], paths = None\<rparr>] \<and>
   noDangling \<lparr>nodes = [exampleNode ''b'' \<lparr>x = 400, y = 100\<rparr> 180,
                         exampleNode ''c'' \<lparr>x = 700, y = 100\<rparr> 180],
                edges = [exampleEdge ''e2'' ''b'' ''c''], paths = None\<rparr>"
  using delete_removes_selected_and_touching_edges
    [of "\<lparr>key = ''Delete'', targetIsBody = True\<rparr>"
        "\<lparr>diagramData = chainDocument, selectedNodeIds = [''a''], selectedTool = ToolSelect,
          penColor = ''#000000''\<rparr>"
        "initialCanvasState None"]
  by (simp add: initialCanvasState_def nodeIds_def noDangling_def handleKeyDown_def
      noCalls_def notEditing_def)

section \<open>Properties of the layout engine\<close>

subsection \<open>The traversal returns\<close>

lemma set_update_subset: "set (AList.update k v al) \<subseteq> insert (k, v) (set al)"
  by (induction al) auto

lemma set_map_entry_subset:
  "set (AList.map_entry k f al) \<subseteq> set al \<union> {(k, f v) |v. (k, v) \<in> set al}"
  by (induction al) auto

lemma keys_update_present:
  "map_of m k = Some v \<Longrightarrow> fst ` set (AList.update k v' m) = fst ` set m"
  using map_of_SomeD [of m k v] by (force simp add: AList.dom_update)

lemma wfMapD:
  "wfMap ns m \<Longrightarrow> (k, l) \<in> set m \<Longrightarrow>
   lid l = k \<and> set (children l) \<subseteq> fst ` set m \<and> node l \<in> set ns"
  unfolding wfMap_def by (drule bspec, assumption) simp

lemma wfMap_update:
  assumes "wfMap ns m" and "lid v = k" and "set (children v) \<subseteq> insert k (fst ` set m)"
    and "node v \<in> set ns"
  shows "wfMap ns (AList.update k v m)"
  unfolding wfMap_def
proof (intro ballI)
  fix p
  assume "p \<in> set (AList.update k v m)"
  then have "p = (k, v) \<or> p \<in> set m"
    using set_update_subset [of k v m] by auto
  then show "lid (snd p) = fst p \<and>
      set (children (snd p)) \<subseteq> fst ` set (AList.update k v m) \<and> node (snd p) \<in> set ns"
    using assms by (auto simp add: wfMap_def AList.dom_update)
qed

lemma wfMap_map_entry:
  assumes "wfMap ns m"
    and "\<And>v. (k, v) \<in> set m \<Longrightarrow>
           lid (f v) = lid v \<and> node (f v) = node v \<and>
           set (children (f v)) \<subseteq> fst ` set m"
  shows "wfMap ns (AList.map_entry k f m)"
  unfolding wfMap_def
proof (intro ballI)
  fix p
  assume "p \<in> set (AList.map_entry k f m)"
  then have "p \<in> set m \<or> (\<exists>v. p = (k, f v) \<and> (k, v) \<in> set m)"
    using set_map_entry_subset [of k f m] by auto
  then show "lid (snd p) = fst p \<and>
      set (children (snd p)) \<subseteq> fst ` set (AList.map_entry k f m) \<and> node (snd p) \<in> set ns"
  proof
    assume "p \<in> set m"
    then show ?thesis
      using assms(1) by (auto simp add: wfMap_def AList.dom_map_entry)
  next
    assume "\<exists>v. p = (k, f v) \<and> (k, v) \<in> set m"
    then obtain v where p: "p = (k, f v)" and v: "(k, v) \<in> set m"
      by blast
    from wfMapD [OF assms(1) v] have "lid v = k" "node v \<in> set ns"
      by simp_all
    with assms(2) [OF v] show ?thesis
      by (simp add: p AList.dom_map_entry)
  qed
qed

lemma wfMap_fold_init:
  "wfMap ns0 m \<Longrightarrow> set ns \<subseteq> set ns0 \<Longrightarrow>
   wfMap ns0 (fold (\<lambda>n m. AList.update (node_id n)
       \<lparr>lid = node_id n, node = n, level = 0, children = [], parents = []\<rparr> m) ns m)"
proof (induction ns arbitrary: m)
  case Nil
  then show ?case by simp
next
  case (Cons n ns)
  have "wfMap ns0 (AList.update (node_id n)
       \<lparr>lid = node_id n, node = n, level = 0, children = [], parents = []\<rparr> m)"
    using Cons.prems by (intro wfMap_update) simp_all
  with Cons show ?case by simp
qed

lemma wfMap_initNodeMap: "wfMap ns (initNodeMap ns)"
  unfolding initNodeMap_def
  by (rule wfMap_fold_init) (simp_all add: wfMap_def)

lemma wfMap_addEdge: "wfMap ns m \<Longrightarrow> wfMap ns (addEdge edge m)"
proof -
  assume wf: "wfMap ns m"
  show ?thesis
  proof (cases "map_of m (edge_from edge)")
    case None
    then show ?thesis using wf by (simp add: addEdge_def)
  next
    case src: (Some src)
    show ?thesis
    proof (cases "map_of m (edge_to edge)")
      case None
      then show ?thesis using wf src by (simp add: addEdge_def)
    next
      case dst: (Some dst)
      have "(edge_to edge, dst) \<in> set m"
        using dst by (rule map_of_SomeD)
      then have tk: "lid dst \<in> fst ` set m"
        using wfMapD [OF wf] by force
      let ?m1 = "AList.map_entry (edge_from edge) (\<lambda>l. l\<lparr>children := children l @ [lid dst]\<rparr>) m"
      have 1: "wfMap ns ?m1"
      proof (rule wfMap_map_entry [OF wf])
        fix v
        assume v: "(edge_from edge, v) \<in> set m"
        from wfMapD [OF wf v] tk
        show "lid (v\<lparr>children := children v @ [lid dst]\<rparr>) = lid v \<and>
              node (v\<lparr>children := children v @ [lid dst]\<rparr>) = node v \<and>
              set (children (v\<lparr>children := children v @ [lid dst]\<rparr>)) \<subseteq> fst ` set m"
          by simp
      qed
      have "wfMap ns (AList.map_entry (edge_to edge) (\<lambda>l. l\<lparr>parents := parents l @ [lid src]\<rparr>) ?m1)"
      proof (rule wfMap_map_entry [OF 1])
        fix v
        assume v: "(edge_to edge, v) \<in> set ?m1"
        from wfMapD [OF 1 v]
        show "lid (v\<lparr>parents := parents v @ [lid src]\<rparr>) = lid v \<and>
              node (v\<lparr>parents := parents v @ [lid src]\<rparr>) = node v \<and>
              set (children (v\<lparr>parents := parents v @ [lid src]\<rparr>)) \<subseteq> fst ` set ?m1"
          by simp
      qed
      then show ?thesis
        by (simp add: addEdge_def src dst)
    qed
  qed
qed

lemma wfMap_buildGraph: "wfMap ns (buildGraph ns es)"
proof -
  have "wfMap ns m \<Longrightarrow> wfMap ns (fold addEdge es m)" for m
    by (induction es arbitrary: m) (simp_all add: wfMap_addEdge)
  then show ?thesis
    by (simp add: buildGraph_def wfMap_initNodeMap)
qed

lemma length_map_entry: "length (AList.map_entry k f al) = length al"
  by (induction al) auto

lemma length_addEdge: "length (addEdge edge m) = length m"
  by (simp add: addEdge_def length_map_entry split: option.split)

lemma length_update_pos: "0 < length (AList.update k v al)"
  by (cases al) auto

lemma buildGraph_nonempty: "ns \<noteq> [] \<Longrightarrow> buildGraph ns es \<noteq> []"
proof -
  assume ne: "ns \<noteq> []"
  let ?F = "\<lambda>n m. AList.update (node_id n)
       \<lparr>lid = node_id n, node = n, level = 0, children = [], parents = []\<rparr> m"
  have f: "0 < length m \<Longrightarrow> 0 < length (fold ?F ks m)" for ks m
    by (induction ks arbitrary: m) (simp_all add: length_update_pos)
  from ne obtain n ks where ns: "ns = n # ks"
    by (cases ns) auto
  have "0 < length (fold ?F ks (?F n []))"
    by (rule f) simp
  then have "0 < length (initNodeMap ns)"
    by (simp add: initNodeMap_def ns)
  moreover have "length (fold addEdge es m) = length m" for m
    by (induction es arbitrary: m) (simp_all add: length_addEdge)
  then have "length (buildGraph ns es) = length (initNodeMap ns)"
    by (simp add: buildGraph_def)
  ultimately have "0 < length (buildGraph ns es)"
    by simp
  then show ?thesis
    by auto
qed

lemma rootIds_Some:
  "\<forall>r \<in> set rs. r \<noteq> None \<Longrightarrow> \<exists>ids. rootIds rs = Some ids \<and> set ids = (\<lambda>r. lid (the r)) ` set rs"
proof (induction rs)
  case Nil
  then show ?case by simp
next
  case (Cons r rs)
  then obtain n where r: "r = Some n" by auto
  from Cons obtain ids where "rootIds rs = Some ids" "set ids = (\<lambda>r. lid (the r)) ` set rs"
    by auto
  then show ?case by (simp add: r)
qed

lemma rootIds_rootNodes:
  assumes "wfMap ns m" and "m \<noteq> []"
  shows "\<exists>queue. rootIds (rootNodes m) = Some queue \<and> set queue \<subseteq> fst ` set m"
proof -
  from assms(2) obtain p ps where m: "m = p # ps"
    by (cases m) auto
  have all: "\<forall>r \<in> set (rootNodes m). r \<noteq> None \<and> the r \<in> snd ` set m"
    by (auto simp add: rootNodes_def Let_def m)
  then obtain queue where q: "rootIds (rootNodes m) = Some queue"
    "set queue = (\<lambda>r. lid (the r)) ` set (rootNodes m)"
    using rootIds_Some [of "rootNodes m"] by auto
  have "lid l \<in> fst ` set m" if "l \<in> snd ` set m" for l
  proof -
    from that obtain k where "(k, l) \<in> set m" by auto
    with wfMapD [OF assms(1) this] show ?thesis by force
  qed
  with all q show ?thesis by auto
qed

lemma children_settle [simp]: "children (settle m current) = children current"
  by (simp add: settle_def split: list.split)

lemma lid_settle [simp]: "lid (settle m current) = lid current"
  by (simp add: settle_def split: list.split)

lemma node_settle [simp]: "node (settle m current) = node current"
  by (simp add: settle_def split: list.split)

lemma bfs_returns:
  "wfMap ns m \<Longrightarrow> set queue \<subseteq> fst ` set m \<Longrightarrow>
   \<exists>m'. bfs m visited queue = Some m' \<and> wfMap ns m'"
proof (induction m visited queue rule: bfs.induct)
  case (1 m visited)
  then show ?case by simp
next
  case (2 m visited currentId queue)
  show ?case
  proof (cases "currentId \<in> set visited")
    case True
    with 2 show ?thesis by simp
  next
    case False
    from "2.prems"(2) have "currentId \<in> fst ` set m" by simp
    then obtain current where c: "map_of m currentId = Some current"
      by (metis domD dom_map_of_conv_image_fst)
    then have mem: "(currentId, current) \<in> set m"
      by (rule map_of_SomeD)
    from wfMapD [OF "2.prems"(1) mem] have cur: "lid current = currentId"
      "set (children current) \<subseteq> fst ` set m" "node current \<in> set ns"
      by simp_all
    let ?m = "AList.update currentId (settle m current) m"
    have wf: "wfMap ns ?m"
      using "2.prems"(1) cur by (intro wfMap_update) auto
    have keys: "fst ` set ?m = fst ` set m"
      by (rule keys_update_present [OF c])
    have "\<exists>m'. bfs ?m (visited @ [currentId]) (queue @ children (settle m current)) = Some m' \<and>
        wfMap ns m'"
      using "2.prems"(2) cur(2) by (intro "2.IH"(2) [OF False c wf]) (auto simp add: keys)
    with False c show ?thesis by simp
  qed
qed

lemma assignLevels_returns:
  "ns \<noteq> [] \<Longrightarrow> \<exists>m. assignLevels ns es = Some m \<and> wfMap ns m"
proof -
  assume ne: "ns \<noteq> []"
  let ?g = "buildGraph ns es"
  have wf: "wfMap ns ?g" by (rule wfMap_buildGraph)
  from rootIds_rootNodes [OF wf buildGraph_nonempty [OF ne]]
  obtain queue where q: "rootIds (rootNodes ?g) = Some queue" "set queue \<subseteq> fst ` set ?g"
    by blast
  from bfs_returns [OF wf q(2), of "[]"] q(1) show ?thesis
    by (simp add: assignLevels_def)
qed

subsection \<open>What the placement writes\<close>

lemma set_xy: "(p::Position)\<lparr>x := a, y := b\<rparr> = \<lparr>x = a, y = b\<rparr>"
  by (cases p) simp

lemma overlay_empty: "overlay Map.empty h = h"
  by (simp add: overlay_def)

lemma overlay_update: "overlay w (h(r := p)) = overlay ([r \<mapsto> p] ++ w) h"
  by (rule ext) (simp add: overlay_def map_add_def split: option.split)

lemma overlay_overlay: "overlay w2 (overlay w1 h) = overlay (w1 ++ w2) h"
  by (rule ext) (simp add: overlay_def map_add_def split: option.split)

lemma overlay_idem: "overlay w (overlay w h) = overlay w h"
  by (rule ext) (simp add: overlay_def split: option.split)

lemma placeRow_overlay:
  "\<exists>w. dom w = (\<lambda>l. position (node l)) ` set row \<and>
       (\<forall>h. placeRow currentX rowY row h = overlay w h)"
proof (induction row arbitrary: currentX)
  case Nil
  have "dom (Map.empty :: ref \<rightharpoonup> Position) = (\<lambda>l. position (node l)) ` set [] \<and>
       (\<forall>h. placeRow currentX rowY [] h = overlay Map.empty h)"
    by (simp add: overlay_empty)
  then show ?case by blast
next
  case (Cons l row)
  let ?r = "position (node l)"
  let ?p = "\<lparr>x = currentX, y = rowY\<rparr>"
  from Cons [of "currentX + width (dimensions (node l)) + NODE_SPACING"]
  obtain w where w: "dom w = (\<lambda>l. position (node l)) ` set row"
    "\<And>h. placeRow (currentX + width (dimensions (node l)) + NODE_SPACING) rowY row h = overlay w h"
    by blast
  have "placeRow currentX rowY (l # row) h = overlay ([?r \<mapsto> ?p] ++ w) h" for h
    by (simp add: Let_def w(2) overlay_update set_xy)
  moreover have "dom ([?r \<mapsto> ?p] ++ w) = (\<lambda>l. position (node l)) ` set (l # row)"
    by (simp add: w(1))
  ultimately show ?case by blast
qed

lemma placeLevel_overlay:
  "\<exists>w. dom w = (\<lambda>l. position (node l)) ` set (snd g) \<and> (\<forall>h. placeLevel g h = overlay w h)"
  unfolding placeLevel_def Let_def by (rule placeRow_overlay)

lemma fold_placeLevel_overlay:
  "\<exists>w. dom w = (\<Union>g \<in> set gs. (\<lambda>l. position (node l)) ` set (snd g)) \<and>
       (\<forall>h. fold placeLevel gs h = overlay w h)"
proof (induction gs)
  case Nil
  have "dom (Map.empty :: ref \<rightharpoonup> Position) = (\<Union>g \<in> set []. (\<lambda>l. position (node l)) ` set (snd g)) \<and>
       (\<forall>h. fold placeLevel [] h = overlay Map.empty h)"
    by (simp add: overlay_empty)
  then show ?case by blast
next
  case (Cons g gs)
  from placeLevel_overlay [of g]
  obtain wg where wg: "dom wg = (\<lambda>l. position (node l)) ` set (snd g)"
    "\<And>h. placeLevel g h = overlay wg h"
    by blast
  from Cons obtain w where w: "dom w = (\<Union>g \<in> set gs. (\<lambda>l. position (node l)) ` set (snd g))"
    "\<And>h. fold placeLevel gs h = overlay w h"
    by blast
  have "fold placeLevel (g # gs) h = overlay (wg ++ w) h" for h
    by (simp add: wg(2) w(2) overlay_overlay)
  moreover have "dom (wg ++ w) = (\<Union>g \<in> set (g # gs). (\<lambda>l. position (node l)) ` set (snd g))"
    by (auto simp add: wg(1) w(1))
  ultimately show ?case by blast
qed

subsection \<open>Every node of the map is placed\<close>

lemma rowMembers_update:
  "rowMembers (AList.update k ((case map_of g k of None \<Rightarrow> [] | Some row \<Rightarrow> row) @ [l]) g) =
   insert l (rowMembers g)"
proof (induction g)
  case Nil
  then show ?case by (simp add: rowMembers_def)
next
  case (Cons p g)
  then show ?case
    by (cases p) (auto simp add: rowMembers_def)
qed

lemma rowMembers_levelGroups: "rowMembers (levelGroups m) = snd ` set m"
proof -
  have "rowMembers (fold (\<lambda>layoutNode g.
             AList.update (level layoutNode)
               ((case map_of g (level layoutNode) of None \<Rightarrow> [] | Some row \<Rightarrow> row) @ [layoutNode]) g)
          ls g0) = rowMembers g0 \<union> set ls" for ls g0
    by (induction ls arbitrary: g0) (simp_all add: rowMembers_update)
  from this [of "map snd m" "[]"] show ?thesis
    by (simp add: levelGroups_def rowMembers_def)
qed

lemma nodes_update:
  "map_of m k = Some v \<Longrightarrow> node v' = node v \<Longrightarrow>
   map (\<lambda>p. node (snd p)) (AList.update k v' m) = map (\<lambda>p. node (snd p)) m"
  by (induction m) (auto split: if_splits)

lemma nodes_map_entry:
  "(\<And>v. node (f v) = node v) \<Longrightarrow>
   map (\<lambda>p. node (snd p)) (AList.map_entry k f m) = map (\<lambda>p. node (snd p)) m"
  by (induction m) auto

lemma nodes_addEdge: "map (\<lambda>p. node (snd p)) (addEdge edge m) = map (\<lambda>p. node (snd p)) m"
  by (simp add: addEdge_def nodes_map_entry split: option.split)

lemma update_absent: "k \<notin> fst ` set m \<Longrightarrow> AList.update k v m = m @ [(k, v)]"
  by (induction m) auto

lemma nodes_initNodeMap:
  "distinct (map node_id ns) \<Longrightarrow> map (\<lambda>p. node (snd p)) (initNodeMap ns) = ns"
proof -
  let ?F = "\<lambda>n m. AList.update (node_id n)
       \<lparr>lid = node_id n, node = n, level = 0, children = [], parents = []\<rparr> m"
  have "distinct (map node_id ks) \<Longrightarrow> fst ` set m \<inter> node_id ` set ks = {} \<Longrightarrow>
      map (\<lambda>p. node (snd p)) (fold ?F ks m) = map (\<lambda>p. node (snd p)) m @ ks" for ks m
  proof (induction ks arbitrary: m)
    case Nil
    then show ?case by simp
  next
    case (Cons n ks)
    have a: "node_id n \<notin> fst ` set m"
      using Cons.prems(2) by auto
    let ?m = "m @ [(node_id n, \<lparr>lid = node_id n, node = n, level = 0, children = [], parents = []\<rparr>)]"
    have "fst ` set ?m \<inter> node_id ` set ks = {}"
      using Cons.prems by auto
    with Cons.IH [of ?m] Cons.prems(1) show ?case
      by (simp add: update_absent [OF a])
  qed
  from this [of ns "[]"] show "distinct (map node_id ns) \<Longrightarrow> ?thesis"
    by (simp add: initNodeMap_def)
qed

lemma nodes_buildGraph:
  "distinct (map node_id ns) \<Longrightarrow> map (\<lambda>p. node (snd p)) (buildGraph ns es) = ns"
proof -
  have "map (\<lambda>p. node (snd p)) (fold addEdge es m) = map (\<lambda>p. node (snd p)) m" for m
    by (induction es arbitrary: m) (simp_all add: nodes_addEdge)
  then show "distinct (map node_id ns) \<Longrightarrow> ?thesis"
    by (simp add: buildGraph_def nodes_initNodeMap)
qed

lemma nodes_bfs:
  "bfs m visited queue = Some m' \<Longrightarrow>
   map (\<lambda>p. node (snd p)) m' = map (\<lambda>p. node (snd p)) m"
proof (induction m visited queue rule: bfs.induct)
  case (1 m visited)
  then show ?case by simp
next
  case (2 m visited currentId queue)
  show ?case
  proof (cases "currentId \<in> set visited")
    case True
    with 2 show ?thesis by simp
  next
    case False
    with "2.prems" obtain current where c: "map_of m currentId = Some current"
      by (cases "map_of m currentId") auto
    with False "2.prems" have
      "bfs (AList.update currentId (settle m current) m) (visited @ [currentId])
          (queue @ children (settle m current)) = Some m'"
      by simp
    from "2.IH"(2) [OF False c this] show ?thesis
      by (simp add: nodes_update [OF c])
  qed
qed

lemma nodes_assignLevels:
  "distinct (map node_id ns) \<Longrightarrow> assignLevels ns es = Some m \<Longrightarrow>
   map (\<lambda>p. node (snd p)) m = ns"
  by (auto simp add: assignLevels_def Let_def nodes_buildGraph split: option.splits
      dest!: nodes_bfs)

lemma autoLayout_overlay:
  "\<exists>out w. (\<forall>h. autoLayout dd h = Some (out, overlay w h)) \<and>
     nodes out = nodes dd \<and> edges out = edges dd \<and>
     dom w \<subseteq> position ` set (nodes dd) \<and>
     (nodes dd \<noteq> [] \<and> distinct (map node_id (nodes dd)) \<longrightarrow> dom w = position ` set (nodes dd))"
proof (cases "nodes dd = []")
  case True
  have "(\<forall>h. autoLayout dd h = Some (dd, overlay Map.empty h)) \<and>
     nodes dd = nodes dd \<and> edges dd = edges dd \<and>
     dom (Map.empty :: ref \<rightharpoonup> Position) \<subseteq> position ` set (nodes dd) \<and>
     (nodes dd \<noteq> [] \<and> distinct (map node_id (nodes dd)) \<longrightarrow>
        dom (Map.empty :: ref \<rightharpoonup> Position) = position ` set (nodes dd))"
    using True by (simp add: autoLayout_def overlay_empty)
  then show ?thesis by blast
next
  case False
  from assignLevels_returns [OF False, of "edges dd"]
  obtain m where m: "assignLevels (nodes dd) (edges dd) = Some m" "wfMap (nodes dd) m"
    by blast
  from fold_placeLevel_overlay [of "levelGroups m"]
  obtain w where w: "dom w = (\<Union>g \<in> set (levelGroups m). (\<lambda>l. position (node l)) ` set (snd g))"
    "\<And>h. fold placeLevel (levelGroups m) h = overlay w h"
    by blast
  have "dom w = (\<lambda>l. position (node l)) ` rowMembers (levelGroups m)"
    by (auto simp add: w(1) rowMembers_def)
  then have d: "dom w = (\<lambda>l. position (node l)) ` snd ` set m"
    by (simp add: rowMembers_levelGroups)
  have sub: "dom w \<subseteq> position ` set (nodes dd)"
  proof
    fix r
    assume "r \<in> dom w"
    with d obtain k l where "(k, l) \<in> set m" "r = position (node l)"
      by auto
    with wfMapD [OF m(2) this(1)] show "r \<in> position ` set (nodes dd)"
      by simp
  qed
  have eq: "dom w = position ` set (nodes dd)" if "distinct (map node_id (nodes dd))"
  proof -
    from nodes_assignLevels [OF that m(1)]
    have "set (map (\<lambda>p. node (snd p)) m) = set (nodes dd)"
      by simp
    then have "(\<lambda>p. node (snd p)) ` set m = set (nodes dd)"
      by simp
    then have "position ` set (nodes dd) = (\<lambda>l. position (node l)) ` snd ` set m"
      by (auto simp add: image_iff) force+
    with d show ?thesis by simp
  qed
  let ?out = "\<lparr>nodes = nodes dd, edges = edges dd, paths = None\<rparr>"
  have "\<forall>h. autoLayout dd h = Some (?out, overlay w h)"
    using False by (simp add: autoLayout_def m(1) w(2))
  with sub eq have "(\<forall>h. autoLayout dd h = Some (?out, overlay w h)) \<and>
     nodes ?out = nodes dd \<and> edges ?out = edges dd \<and>
     dom w \<subseteq> position ` set (nodes dd) \<and>
     (nodes dd \<noteq> [] \<and> distinct (map node_id (nodes dd)) \<longrightarrow> dom w = position ` set (nodes dd))"
    by simp
  then show ?thesis by blast
qed

subsection \<open>The values the placement writes\<close>

lemma placeRow_writes:
  "\<exists>w. dom w = (\<lambda>l. position (node l)) ` set row \<and>
       (\<forall>h. placeRow currentX rowY row h = overlay w h) \<and>
       (\<forall>r p. w r = Some p \<longrightarrow> y p = rowY)"
proof (induction row arbitrary: currentX)
  case Nil
  have "dom (Map.empty :: ref \<rightharpoonup> Position) = (\<lambda>l. position (node l)) ` set [] \<and>
       (\<forall>h. placeRow currentX rowY [] h = overlay Map.empty h) \<and>
       (\<forall>r p. (Map.empty :: ref \<rightharpoonup> Position) r = Some p \<longrightarrow> y p = rowY)"
    by (simp add: overlay_empty)
  then show ?case by blast
next
  case (Cons l row)
  let ?r = "position (node l)"
  let ?p = "\<lparr>x = currentX, y = rowY\<rparr>"
  from Cons [of "currentX + width (dimensions (node l)) + NODE_SPACING"]
  obtain w where w: "dom w = (\<lambda>l. position (node l)) ` set row"
    "\<And>h. placeRow (currentX + width (dimensions (node l)) + NODE_SPACING) rowY row h = overlay w h"
    "\<And>r p. w r = Some p \<Longrightarrow> y p = rowY"
    by blast
  have "placeRow currentX rowY (l # row) h = overlay ([?r \<mapsto> ?p] ++ w) h" for h
    by (simp add: Let_def w(2) overlay_update set_xy)
  moreover have "dom ([?r \<mapsto> ?p] ++ w) = (\<lambda>l. position (node l)) ` set (l # row)"
    by (simp add: w(1))
  moreover have "y p = rowY" if "([?r \<mapsto> ?p] ++ w) r = Some p" for r p
  proof (cases "w r")
    case None
    with that show ?thesis
      by (auto simp add: map_add_def split: if_splits)
  next
    case (Some q)
    with that have "p = q" by (simp add: map_add_def)
    with w(3) [OF Some] show ?thesis by simp
  qed
  ultimately show ?case by blast
qed

lemma placeLevel_writes:
  "\<exists>w. dom w = (\<lambda>l. position (node l)) ` set (snd g) \<and>
       (\<forall>h. placeLevel g h = overlay w h) \<and>
       (\<forall>r p. w r = Some p \<longrightarrow> y p = START_Y + of_int (fst g) * LEVEL_SPACING)"
  unfolding placeLevel_def Let_def by (rule placeRow_writes)

lemma fold_placeLevel_writes:
  "\<exists>w. dom w = (\<Union>g \<in> set gs. (\<lambda>l. position (node l)) ` set (snd g)) \<and>
       (\<forall>h. fold placeLevel gs h = overlay w h) \<and>
       (\<forall>r p. w r = Some p \<longrightarrow>
          (\<exists>g \<in> set gs. r \<in> (\<lambda>l. position (node l)) ` set (snd g) \<and>
                          y p = START_Y + of_int (fst g) * LEVEL_SPACING))"
proof (induction gs)
  case Nil
  have "dom (Map.empty :: ref \<rightharpoonup> Position) =
          (\<Union>g \<in> set []. (\<lambda>l. position (node l)) ` set (snd g)) \<and>
       (\<forall>h. fold placeLevel [] h = overlay Map.empty h) \<and>
       (\<forall>r p. (Map.empty :: ref \<rightharpoonup> Position) r = Some p \<longrightarrow>
          (\<exists>g \<in> set []. r \<in> (\<lambda>l. position (node l)) ` set (snd g) \<and>
                          y p = START_Y + of_int (fst g) * LEVEL_SPACING))"
    by (simp add: overlay_empty)
  then show ?case by blast
next
  case (Cons g gs)
  from placeLevel_writes [of g]
  obtain wg where wg: "dom wg = (\<lambda>l. position (node l)) ` set (snd g)"
    "\<And>h. placeLevel g h = overlay wg h"
    "\<And>r p. wg r = Some p \<Longrightarrow> y p = START_Y + of_int (fst g) * LEVEL_SPACING"
    by blast
  from Cons obtain w where w: "dom w = (\<Union>g \<in> set gs. (\<lambda>l. position (node l)) ` set (snd g))"
    "\<And>h. fold placeLevel gs h = overlay w h"
    "\<And>r p. w r = Some p \<Longrightarrow>
       \<exists>g \<in> set gs. r \<in> (\<lambda>l. position (node l)) ` set (snd g) \<and>
                     y p = START_Y + of_int (fst g) * LEVEL_SPACING"
    by blast
  have "fold placeLevel (g # gs) h = overlay (wg ++ w) h" for h
    by (simp add: wg(2) w(2) overlay_overlay)
  moreover have "dom (wg ++ w) = (\<Union>g \<in> set (g # gs). (\<lambda>l. position (node l)) ` set (snd g))"
    by (auto simp add: wg(1) w(1))
  moreover have "\<exists>k \<in> set (g # gs). r \<in> (\<lambda>l. position (node l)) ` set (snd k) \<and>
                     y p = START_Y + of_int (fst k) * LEVEL_SPACING"
    if "(wg ++ w) r = Some p" for r p
  proof (cases "w r")
    case None
    with that have g: "wg r = Some p" by (simp add: map_add_def)
    then have "r \<in> dom wg" by blast
    with wg(1) wg(3) [OF g] show ?thesis by auto
  next
    case (Some q)
    with that have "p = q" by (simp add: map_add_def)
    with w(3) [OF Some] show ?thesis by auto
  qed
  ultimately show ?case by blast
qed

lemma levelGroups_levels:
  assumes "g \<in> set (levelGroups m)" and "l \<in> set (snd g)"
  shows "level l = fst g"
proof -
  let ?F = "\<lambda>layoutNode g.
             AList.update (level layoutNode)
               ((case map_of g (level layoutNode) of None \<Rightarrow> [] | Some row \<Rightarrow> row) @ [layoutNode]) g"
  have inv: "(\<forall>g \<in> set g0. \<forall>l \<in> set (snd g). level l = fst g) \<Longrightarrow>
      (\<forall>g \<in> set (fold ?F ls g0). \<forall>l \<in> set (snd g). level l = fst g)" for ls g0
  proof (induction ls arbitrary: g0)
    case Nil
    then show ?case by simp
  next
    case (Cons k ls)
    note g0 = Cons.prems [rule_format]
    define old where "old = (case map_of g0 (level k) of None \<Rightarrow> [] | Some row \<Rightarrow> row)"
    have old: "level l = level k" if "l \<in> set old" for l
    proof (cases "map_of g0 (level k)")
      case None
      with that show ?thesis by (simp add: old_def)
    next
      case (Some row)
      then have mem: "(level k, row) \<in> set g0" by (rule map_of_SomeD)
      from that Some have "l \<in> set (snd (level k, row))" by (simp add: old_def)
      from g0 [OF mem this] show ?thesis by simp
    qed
    have step: "?F k g0 = AList.update (level k) (old @ [k]) g0"
      by (simp add: old_def)
    have new: "\<forall>g \<in> set (?F k g0). \<forall>l \<in> set (snd g). level l = fst g"
      unfolding step
    proof (intro ballI)
      fix g l
      assume g: "g \<in> set (AList.update (level k) (old @ [k]) g0)" and l: "l \<in> set (snd g)"
      from g have "g = (level k, old @ [k]) \<or> g \<in> set g0"
        using set_update_subset [of "level k" "old @ [k]" g0] by blast
      then show "level l = fst g"
      proof
        assume e: "g = (level k, old @ [k])"
        with l have "l \<in> set old \<or> l = k" by auto
        then show ?thesis
        proof
          assume "l \<in> set old"
          from old [OF this] e show ?thesis by simp
        next
          assume "l = k"
          with e show ?thesis by simp
        qed
      next
        assume "g \<in> set g0"
        from g0 [OF this l] show ?thesis .
      qed
    qed
    have e: "fold ?F (k # ls) g0 = fold ?F ls (?F k g0)"
      by simp
    show ?case
      unfolding e by (rule Cons.IH [OF new])
  qed
  have "\<forall>g \<in> set (levelGroups m). \<forall>l \<in> set (snd g). level l = fst g"
    unfolding levelGroups_def by (rule inv) simp
  with assms show ?thesis by blast
qed

lemma autoLayout_writes:
  "\<exists>out w. (\<forall>h. autoLayout dd h = Some (out, overlay w h)) \<and>
     nodes out = nodes dd \<and> edges out = edges dd \<and>
     dom w \<subseteq> position ` set (nodes dd) \<and>
     (nodes dd \<noteq> [] \<and> distinct (map node_id (nodes dd)) \<longrightarrow> dom w = position ` set (nodes dd)) \<and>
     (nodes dd \<noteq> [] \<longrightarrow>
        (\<exists>m. assignLevels (nodes dd) (edges dd) = Some m \<and>
          dom w = (\<lambda>l. position (node l)) ` snd ` set m \<and> dom w \<noteq> {} \<and>
          (\<forall>r p. w r = Some p \<longrightarrow>
             (\<exists>l \<in> snd ` set m. position (node l) = r \<and>
                y p = START_Y + of_int (level l) * LEVEL_SPACING))))"
proof (cases "nodes dd = []")
  case True
  have "(\<forall>h. autoLayout dd h = Some (dd, overlay Map.empty h)) \<and>
     nodes dd = nodes dd \<and> edges dd = edges dd \<and>
     dom (Map.empty :: ref \<rightharpoonup> Position) \<subseteq> position ` set (nodes dd) \<and>
     (nodes dd \<noteq> [] \<and> distinct (map node_id (nodes dd)) \<longrightarrow>
        dom (Map.empty :: ref \<rightharpoonup> Position) = position ` set (nodes dd)) \<and>
     (nodes dd \<noteq> [] \<longrightarrow>
        (\<exists>m. assignLevels (nodes dd) (edges dd) = Some m \<and>
          dom (Map.empty :: ref \<rightharpoonup> Position) = (\<lambda>l. position (node l)) ` snd ` set m \<and>
          dom (Map.empty :: ref \<rightharpoonup> Position) \<noteq> {} \<and>
          (\<forall>r p. (Map.empty :: ref \<rightharpoonup> Position) r = Some p \<longrightarrow>
             (\<exists>l \<in> snd ` set m. position (node l) = r \<and>
                y p = START_Y + of_int (level l) * LEVEL_SPACING))))"
    using True by (simp add: autoLayout_def overlay_empty)
  then show ?thesis by blast
next
  case False
  from assignLevels_returns [OF False, of "edges dd"]
  obtain m where m: "assignLevels (nodes dd) (edges dd) = Some m" "wfMap (nodes dd) m"
    by blast
  from fold_placeLevel_writes [of "levelGroups m"]
  obtain w where w: "dom w = (\<Union>g \<in> set (levelGroups m). (\<lambda>l. position (node l)) ` set (snd g))"
    "\<And>h. fold placeLevel (levelGroups m) h = overlay w h"
    "\<And>r p. w r = Some p \<Longrightarrow>
       \<exists>g \<in> set (levelGroups m). r \<in> (\<lambda>l. position (node l)) ` set (snd g) \<and>
                     y p = START_Y + of_int (fst g) * LEVEL_SPACING"
    by blast
  have "dom w = (\<lambda>l. position (node l)) ` rowMembers (levelGroups m)"
    by (auto simp add: w(1) rowMembers_def)
  then have d: "dom w = (\<lambda>l. position (node l)) ` snd ` set m"
    by (simp add: rowMembers_levelGroups)
  have sub: "dom w \<subseteq> position ` set (nodes dd)"
  proof
    fix r
    assume "r \<in> dom w"
    with d obtain k l where "(k, l) \<in> set m" "r = position (node l)"
      by auto
    with wfMapD [OF m(2) this(1)] show "r \<in> position ` set (nodes dd)"
      by simp
  qed
  have eq: "dom w = position ` set (nodes dd)" if "distinct (map node_id (nodes dd))"
  proof -
    from nodes_assignLevels [OF that m(1)]
    have "set (map (\<lambda>p. node (snd p)) m) = set (nodes dd)"
      by simp
    then have "(\<lambda>p. node (snd p)) ` set m = set (nodes dd)"
      by simp
    then have "position ` set (nodes dd) = (\<lambda>l. position (node l)) ` snd ` set m"
      by (auto simp add: image_iff) force+
    with d show ?thesis by simp
  qed
  have "m \<noteq> []"
  proof -
    from m(1) obtain queue where "bfs (buildGraph (nodes dd) (edges dd)) [] queue = Some m"
      by (auto simp add: assignLevels_def Let_def split: option.splits)
    from nodes_bfs [OF this]
    have "length m = length (buildGraph (nodes dd) (edges dd))"
      by (metis length_map)
    with buildGraph_nonempty [OF False, of "edges dd"] show ?thesis
      by auto
  qed
  then have ne: "dom w \<noteq> {}"
    unfolding d by simp
  have lv: "\<exists>l \<in> snd ` set m. position (node l) = r \<and>
                y p = START_Y + of_int (level l) * LEVEL_SPACING" if "w r = Some p" for r p
  proof -
    from w(3) [OF that] obtain g l where g: "g \<in> set (levelGroups m)" "l \<in> set (snd g)"
      "r = position (node l)" "y p = START_Y + of_int (fst g) * LEVEL_SPACING"
      by auto
    from g(1,2) have "l \<in> rowMembers (levelGroups m)"
      by (auto simp add: rowMembers_def)
    then have "l \<in> snd ` set m"
      by (simp add: rowMembers_levelGroups)
    moreover have "y p = START_Y + of_int (level l) * LEVEL_SPACING"
      using levelGroups_levels [OF g(1,2)] g(4) by simp
    ultimately show ?thesis
      using g(3) by blast
  qed
  let ?out = "\<lparr>nodes = nodes dd, edges = edges dd, paths = None\<rparr>"
  have all: "\<forall>h. autoLayout dd h = Some (?out, overlay w h)"
    using False by (simp add: autoLayout_def m(1) w(2))
  have lvl: "nodes dd \<noteq> [] \<longrightarrow>
        (\<exists>m. assignLevels (nodes dd) (edges dd) = Some m \<and>
          dom w = (\<lambda>l. position (node l)) ` snd ` set m \<and> dom w \<noteq> {} \<and>
          (\<forall>r p. w r = Some p \<longrightarrow>
             (\<exists>l \<in> snd ` set m. position (node l) = r \<and>
                y p = START_Y + of_int (level l) * LEVEL_SPACING)))"
    using m(1) lv d ne by blast
  have dist: "nodes dd \<noteq> [] \<and> distinct (map node_id (nodes dd)) \<longrightarrow>
      dom w = position ` set (nodes dd)"
    using eq by blast
  have "(\<forall>h. autoLayout dd h = Some (?out, overlay w h)) \<and>
     nodes ?out = nodes dd \<and> edges ?out = edges dd \<and>
     dom w \<subseteq> position ` set (nodes dd) \<and>
     (nodes dd \<noteq> [] \<and> distinct (map node_id (nodes dd)) \<longrightarrow> dom w = position ` set (nodes dd)) \<and>
     (nodes dd \<noteq> [] \<longrightarrow>
        (\<exists>m. assignLevels (nodes dd) (edges dd) = Some m \<and>
          dom w = (\<lambda>l. position (node l)) ` snd ` set m \<and> dom w \<noteq> {} \<and>
          (\<forall>r p. w r = Some p \<longrightarrow>
             (\<exists>l \<in> snd ` set m. position (node l) = r \<and>
                y p = START_Y + of_int (level l) * LEVEL_SPACING))))"
    using all sub dist lvl by (intro conjI) simp_all
  then show ?thesis by blast
qed

subsection \<open>Determinism\<close>

text \<open>
  Claim C8. For every input document the call returns, and what it returns does not
  depend on anything but the node list and the edge list: there is one output document
  and one set of position objects with their new values such that, whatever the store
  holds before, the call returns that document and overwrites exactly those objects
  with those values. A second call on the same input, in the store the first call
  left, returns the same document and leaves the same store, so both calls give
  identical output positions.
\<close>

theorem autoLayout_deterministic:
  "\<exists>out w. \<forall>h.
     autoLayout dd h = Some (out, overlay w h) \<and>
     autoLayout dd (overlay w h) = Some (out, overlay w h) \<and>
     positionsOf out (overlay w (overlay w h)) = positionsOf out (overlay w h)"
proof -
  from autoLayout_overlay [of dd]
  obtain out w where "\<forall>h. autoLayout dd h = Some (out, overlay w h)"
    by blast
  then have "\<forall>h. autoLayout dd h = Some (out, overlay w h) \<and>
     autoLayout dd (overlay w h) = Some (out, overlay w h) \<and>
     positionsOf out (overlay w (overlay w h)) = positionsOf out (overlay w h)"
    by (simp add: overlay_idem)
  then show ?thesis by blast
qed

subsection \<open>The fully cyclic graph of three nodes\<close>

lemma cyclic_buildGraph:
  assumes "node_id a \<noteq> node_id b" and "node_id a \<noteq> node_id c" and "node_id b \<noteq> node_id c"
    and "edge_from ab = node_id a \<and> edge_to ab = node_id b"
    and "edge_from bc = node_id b \<and> edge_to bc = node_id c"
    and "edge_from ca = node_id c \<and> edge_to ca = node_id a"
  shows "buildGraph [a, b, c] [ab, bc, ca] =
     [(node_id a, \<lparr>lid = node_id a, node = a, level = 0, children = [node_id b], parents = [node_id c]\<rparr>),
      (node_id b, \<lparr>lid = node_id b, node = b, level = 0, children = [node_id c], parents = [node_id a]\<rparr>),
      (node_id c, \<lparr>lid = node_id c, node = c, level = 0, children = [node_id a], parents = [node_id b]\<rparr>)]"
  using assms assms(1-3) [symmetric]
  by (simp add: buildGraph_def initNodeMap_def addEdge_def)

lemma cyclic_assignLevels:
  assumes "node_id a \<noteq> node_id b" and "node_id a \<noteq> node_id c" and "node_id b \<noteq> node_id c"
    and "edge_from ab = node_id a \<and> edge_to ab = node_id b"
    and "edge_from bc = node_id b \<and> edge_to bc = node_id c"
    and "edge_from ca = node_id c \<and> edge_to ca = node_id a"
  shows "assignLevels [a, b, c] [ab, bc, ca] =
     Some [(node_id a, \<lparr>lid = node_id a, node = a, level = 1, children = [node_id b], parents = [node_id c]\<rparr>),
      (node_id b, \<lparr>lid = node_id b, node = b, level = 2, children = [node_id c], parents = [node_id a]\<rparr>),
      (node_id c, \<lparr>lid = node_id c, node = c, level = 3, children = [node_id a], parents = [node_id b]\<rparr>)]"
  using assms(1-3) assms(1-3) [symmetric]
  by (simp add: assignLevels_def cyclic_buildGraph [OF assms] rootNodes_def
      settle_def parentLevels_def)

lemma cyclic_autoLayout:
  assumes "node_id a \<noteq> node_id b" and "node_id a \<noteq> node_id c" and "node_id b \<noteq> node_id c"
    and "edge_from ab = node_id a \<and> edge_to ab = node_id b"
    and "edge_from bc = node_id b \<and> edge_to bc = node_id c"
    and "edge_from ca = node_id c \<and> edge_to ca = node_id a"
  shows "autoLayout \<lparr>nodes = [a, b, c], edges = [ab, bc, ca], paths = ps\<rparr> h =
      Some (\<lparr>nodes = [a, b, c], edges = [ab, bc, ca], paths = None\<rparr>,
            h(position a := \<lparr>x = START_X - width (dimensions a) / 2, y = START_Y + 1 * LEVEL_SPACING\<rparr>,
              position b := \<lparr>x = START_X - width (dimensions b) / 2, y = START_Y + 2 * LEVEL_SPACING\<rparr>,
              position c := \<lparr>x = START_X - width (dimensions c) / 2, y = START_Y + 3 * LEVEL_SPACING\<rparr>))"
  by (simp add: autoLayout_def cyclic_assignLevels [OF assms] levelGroups_def placeLevel_def
      set_xy)

text \<open>
  Claim C3, as the code has it. With nodes \<open>a\<close>, \<open>b\<close>, \<open>c\<close> of distinct ids in this
  order and the edges a\<rightarrow>b, b\<rightarrow>c, c\<rightarrow>a, no node is without parent and the first node
  \<open>a\<close> is the single root. A node's level is one more than the greatest level its
  parents hold when it is visited, and a parent not visited yet holds the initial level
  0: \<open>a\<close>, whose parent \<open>c\<close> still holds 0, gets level 1, then \<open>b\<close> level 2 and \<open>c\<close>
  level 3. Each node is alone in its row, at \<open>y = START_Y + level * LEVEL_SPACING\<close>.
\<close>

theorem cyclic_three_node_levels:
  assumes "node_id a \<noteq> node_id b" and "node_id a \<noteq> node_id c" and "node_id b \<noteq> node_id c"
    and "edge_from ab = node_id a \<and> edge_to ab = node_id b"
    and "edge_from bc = node_id b \<and> edge_to bc = node_id c"
    and "edge_from ca = node_id c \<and> edge_to ca = node_id a"
  shows "rootIds (rootNodes (buildGraph [a, b, c] [ab, bc, ca])) = Some [node_id a] \<and>
    (\<exists>m. assignLevels [a, b, c] [ab, bc, ca] = Some m \<and>
         levelOf m (node_id a) = Some 1 \<and>
         levelOf m (node_id b) = Some 2 \<and>
         levelOf m (node_id c) = Some 3) \<and>
    autoLayout \<lparr>nodes = [a, b, c], edges = [ab, bc, ca], paths = ps\<rparr> h =
      Some (\<lparr>nodes = [a, b, c], edges = [ab, bc, ca], paths = None\<rparr>,
            h(position a := \<lparr>x = START_X - width (dimensions a) / 2, y = START_Y + 1 * LEVEL_SPACING\<rparr>,
              position b := \<lparr>x = START_X - width (dimensions b) / 2, y = START_Y + 2 * LEVEL_SPACING\<rparr>,
              position c := \<lparr>x = START_X - width (dimensions c) / 2, y = START_Y + 3 * LEVEL_SPACING\<rparr>))"
proof (intro conjI)
  note d = assms(1-3) assms(1-3) [symmetric]
  show "rootIds (rootNodes (buildGraph [a, b, c] [ab, bc, ca])) = Some [node_id a]"
    by (simp add: cyclic_buildGraph [OF assms] rootNodes_def)
  show "\<exists>m. assignLevels [a, b, c] [ab, bc, ca] = Some m \<and>
         levelOf m (node_id a) = Some 1 \<and>
         levelOf m (node_id b) = Some 2 \<and>
         levelOf m (node_id c) = Some 3"
    by (simp add: cyclic_assignLevels [OF assms] levelOf_def d)
  show "autoLayout \<lparr>nodes = [a, b, c], edges = [ab, bc, ca], paths = ps\<rparr> h =
      Some (\<lparr>nodes = [a, b, c], edges = [ab, bc, ca], paths = None\<rparr>,
            h(position a := \<lparr>x = START_X - width (dimensions a) / 2, y = START_Y + 1 * LEVEL_SPACING\<rparr>,
              position b := \<lparr>x = START_X - width (dimensions b) / 2, y = START_Y + 2 * LEVEL_SPACING\<rparr>,
              position c := \<lparr>x = START_X - width (dimensions c) / 2, y = START_Y + 3 * LEVEL_SPACING\<rparr>))"
    by (rule cyclic_autoLayout [OF assms])
qed

theorem cyclic_three_node_levels_witness:
  "rootIds (rootNodes (buildGraph cycleNodes cycleEdges)) = Some [''A''] \<and>
   (\<exists>m. assignLevels cycleNodes cycleEdges = Some m \<and>
        levelOf m ''A'' = Some 1 \<and> levelOf m ''B'' = Some 2 \<and> levelOf m ''C'' = Some 3) \<and>
   autoLayout \<lparr>nodes = cycleNodes, edges = cycleEdges, paths = None\<rparr> originStore =
     Some (\<lparr>nodes = cycleNodes, edges = cycleEdges, paths = None\<rparr>,
           originStore(10 := \<lparr>x = 10, y = 280\<rparr>, 20 := \<lparr>x = 10, y = 460\<rparr>,
                       30 := \<lparr>x = 10, y = 640\<rparr>))"
  using cyclic_three_node_levels
    [of "exampleNode ''A'' 10 180" "exampleNode ''B'' 20 180" "exampleNode ''C'' 30 180"
        "exampleEdge ''AB'' ''A'' ''B''" "exampleEdge ''BC'' ''B'' ''C''"
        "exampleEdge ''CA'' ''C'' ''A''" None originStore]
  by (simp add: START_X_def START_Y_def LEVEL_SPACING_def)

text \<open>
  Claim C3 as stated fails on that graph: the levels of \<open>A\<close>, \<open>B\<close>, \<open>C\<close> are 1, 2, 3
  and not 0, 1, 2; the root \<open>A\<close> is placed in the row at \<open>y = 280\<close>, not in the row of
  level 0 at \<open>y = 100\<close>.
\<close>

theorem cyclic_root_not_at_level_zero:
  "map_option (\<lambda>m. (levelOf m ''A'', levelOf m ''B'', levelOf m ''C''))
     (assignLevels cycleNodes cycleEdges) = Some (Some 1, Some 2, Some 3) \<and>
   map_option (\<lambda>m. (levelOf m ''A'', levelOf m ''B'', levelOf m ''C''))
     (assignLevels cycleNodes cycleEdges) \<noteq> Some (Some 0, Some 1, Some 2) \<and>
   map_option (\<lambda>res. map (\<lambda>r. y (snd res r)) [10, 20, 30])
     (autoLayout \<lparr>nodes = cycleNodes, edges = cycleEdges, paths = None\<rparr> originStore) =
     Some [280, 460, 640]"
proof -
  have pre: "node_id (exampleNode ''A'' (10::ref) 180) \<noteq> node_id (exampleNode ''B'' (20::ref) 180)"
    "node_id (exampleNode ''A'' (10::ref) 180) \<noteq> node_id (exampleNode ''C'' (30::ref) 180)"
    "node_id (exampleNode ''B'' (20::ref) 180) \<noteq> node_id (exampleNode ''C'' (30::ref) 180)"
    "edge_from (exampleEdge ''AB'' ''A'' ''B'') = node_id (exampleNode ''A'' (10::ref) 180) \<and>
     edge_to (exampleEdge ''AB'' ''A'' ''B'') = node_id (exampleNode ''B'' (20::ref) 180)"
    "edge_from (exampleEdge ''BC'' ''B'' ''C'') = node_id (exampleNode ''B'' (20::ref) 180) \<and>
     edge_to (exampleEdge ''BC'' ''B'' ''C'') = node_id (exampleNode ''C'' (30::ref) 180)"
    "edge_from (exampleEdge ''CA'' ''C'' ''A'') = node_id (exampleNode ''C'' (30::ref) 180) \<and>
     edge_to (exampleEdge ''CA'' ''C'' ''A'') = node_id (exampleNode ''A'' (10::ref) 180)"
    by simp_all
  have l: "map_option (\<lambda>m. (levelOf m ''A'', levelOf m ''B'', levelOf m ''C''))
      (assignLevels cycleNodes cycleEdges) = Some (Some 1, Some 2, Some 3)"
    unfolding cyclic_assignLevels [OF pre] by (simp add: levelOf_def)
  have p: "map_option (\<lambda>res. map (\<lambda>r. y (snd res r)) [10, 20, 30])
      (autoLayout \<lparr>nodes = cycleNodes, edges = cycleEdges, paths = None\<rparr> originStore) =
      Some [280, 460, 640]"
    unfolding cyclic_autoLayout [OF pre]
    by (simp add: START_Y_def LEVEL_SPACING_def)
  show ?thesis
    by (simp only: l p) simp
qed

subsection \<open>Two nodes without edges\<close>

lemma two_nodes_assignLevels:
  assumes "node_id n1 \<noteq> node_id n2"
  shows "assignLevels [n1, n2] [] =
     Some [(node_id n1, \<lparr>lid = node_id n1, node = n1, level = 0, children = [], parents = []\<rparr>),
           (node_id n2, \<lparr>lid = node_id n2, node = n2, level = 0, children = [], parents = []\<rparr>)]"
  using assms assms [symmetric]
  by (simp add: assignLevels_def buildGraph_def initNodeMap_def rootNodes_def settle_def
      parentLevels_def)

text \<open>
  Claim C9. A document of two nodes (distinct ids, each with its own position object)
  and no edges: both nodes get level 0 and \<open>y = START_Y\<close>; the row is centred on
  \<open>START_X\<close>; the second node's left edge is exactly \<open>NODE_SPACING\<close> to the right of
  the first node's right edge, so the first node, of positive width, is left of the
  second.
\<close>

theorem two_nodes_same_row:
  assumes "node_id n1 \<noteq> node_id n2" and "position n1 \<noteq> position n2"
  shows "\<exists>m h1.
    assignLevels [n1, n2] [] = Some m \<and>
    levelOf m (node_id n1) = Some 0 \<and> levelOf m (node_id n2) = Some 0 \<and>
    autoLayout \<lparr>nodes = [n1, n2], edges = [], paths = ps\<rparr> h =
      Some (\<lparr>nodes = [n1, n2], edges = [], paths = None\<rparr>, h1) \<and>
    y (h1 (position n1)) = START_Y \<and> y (h1 (position n2)) = START_Y \<and>
    x (h1 (position n1)) =
      START_X - (width (dimensions n1) + width (dimensions n2) + NODE_SPACING) / 2 \<and>
    x (h1 (position n2)) - (x (h1 (position n1)) + width (dimensions n1)) = NODE_SPACING \<and>
    NODE_SPACING = 60 \<and>
    (0 < width (dimensions n1) \<longrightarrow> x (h1 (position n1)) < x (h1 (position n2)))"
proof -
  let ?m = "[(node_id n1, \<lparr>lid = node_id n1, node = n1, level = 0, children = [], parents = []\<rparr>),
             (node_id n2, \<lparr>lid = node_id n2, node = n2, level = 0, children = [], parents = []\<rparr>)]"
  let ?x1 = "START_X - (width (dimensions n1) + width (dimensions n2) + NODE_SPACING) / 2"
  let ?h1 = "h(position n1 := \<lparr>x = ?x1, y = START_Y\<rparr>,
               position n2 := \<lparr>x = ?x1 + width (dimensions n1) + NODE_SPACING, y = START_Y\<rparr>)"
  have m: "assignLevels [n1, n2] [] = Some ?m"
    by (rule two_nodes_assignLevels [OF assms(1)])
  have l: "levelOf ?m (node_id n1) = Some 0" "levelOf ?m (node_id n2) = Some 0"
    using assms(1) by (simp_all add: levelOf_def)
  have a: "autoLayout \<lparr>nodes = [n1, n2], edges = [], paths = ps\<rparr> h =
      Some (\<lparr>nodes = [n1, n2], edges = [], paths = None\<rparr>, ?h1)"
    by (simp add: autoLayout_def m levelGroups_def placeLevel_def set_xy add.assoc)
  have p: "?h1 (position n1) = \<lparr>x = ?x1, y = START_Y\<rparr>"
    "?h1 (position n2) = \<lparr>x = ?x1 + width (dimensions n1) + NODE_SPACING, y = START_Y\<rparr>"
    using assms(2) by simp_all
  have "assignLevels [n1, n2] [] = Some ?m \<and>
    levelOf ?m (node_id n1) = Some 0 \<and> levelOf ?m (node_id n2) = Some 0 \<and>
    autoLayout \<lparr>nodes = [n1, n2], edges = [], paths = ps\<rparr> h =
      Some (\<lparr>nodes = [n1, n2], edges = [], paths = None\<rparr>, ?h1) \<and>
    y (?h1 (position n1)) = START_Y \<and> y (?h1 (position n2)) = START_Y \<and>
    x (?h1 (position n1)) = ?x1 \<and>
    x (?h1 (position n2)) - (x (?h1 (position n1)) + width (dimensions n1)) = NODE_SPACING \<and>
    NODE_SPACING = 60 \<and>
    (0 < width (dimensions n1) \<longrightarrow> x (?h1 (position n1)) < x (?h1 (position n2)))"
    unfolding p using m l a by (simp add: NODE_SPACING_def)
  then show ?thesis by blast
qed

theorem two_nodes_same_row_witness:
  "node_id (exampleNode ''A'' (10::ref) 180) \<noteq> node_id (exampleNode ''B'' (20::ref) 100) \<and>
   position (exampleNode ''A'' (10::ref) 180) \<noteq> position (exampleNode ''B'' (20::ref) 100) \<and>
   0 < width (dimensions (exampleNode ''A'' (10::ref) 180)) \<and>
   (\<exists>h1. autoLayout \<lparr>nodes = [exampleNode ''A'' 10 180, exampleNode ''B'' 20 100], edges = [],
                       paths = None\<rparr> originStore =
           Some (\<lparr>nodes = [exampleNode ''A'' 10 180, exampleNode ''B'' 20 100], edges = [],
                  paths = None\<rparr>, h1) \<and>
         h1 10 = \<lparr>x = - 70, y = 100\<rparr> \<and> h1 20 = \<lparr>x = 170, y = 100\<rparr>)"
proof -
  let ?n1 = "exampleNode ''A'' (10::ref) 180"
  let ?n2 = "exampleNode ''B'' (20::ref) 100"
  have pre: "node_id ?n1 \<noteq> node_id ?n2" "position ?n1 \<noteq> position ?n2"
    by simp_all
  from two_nodes_same_row [OF pre, of None originStore]
  obtain h1 where r:
    "autoLayout \<lparr>nodes = [?n1, ?n2], edges = [], paths = None\<rparr> originStore =
       Some (\<lparr>nodes = [?n1, ?n2], edges = [], paths = None\<rparr>, h1)"
    "y (h1 (position ?n1)) = START_Y" "y (h1 (position ?n2)) = START_Y"
    "x (h1 (position ?n1)) =
      START_X - (width (dimensions ?n1) + width (dimensions ?n2) + NODE_SPACING) / 2"
    "x (h1 (position ?n2)) - (x (h1 (position ?n1)) + width (dimensions ?n1)) = NODE_SPACING"
    by blast
  have "h1 10 = \<lparr>x = - 70, y = 100\<rparr>"
    using r(2,4) by (cases "h1 10") (simp add: START_X_def START_Y_def NODE_SPACING_def)
  moreover have "h1 20 = \<lparr>x = 170, y = 100\<rparr>"
    using r(3,4,5) by (cases "h1 20") (simp add: START_X_def START_Y_def NODE_SPACING_def)
  ultimately have "\<exists>h1. autoLayout \<lparr>nodes = [?n1, ?n2], edges = [], paths = None\<rparr> originStore =
           Some (\<lparr>nodes = [?n1, ?n2], edges = [], paths = None\<rparr>, h1) \<and>
         h1 10 = \<lparr>x = - 70, y = 100\<rparr> \<and> h1 20 = \<lparr>x = 170, y = 100\<rparr>"
    using r(1) by blast
  then show ?thesis
    by simp
qed

subsection \<open>Mutation of the input\<close>

lemma two_nodes_autoLayout:
  assumes "node_id n1 \<noteq> node_id n2"
  shows "autoLayout \<lparr>nodes = [n1, n2], edges = [], paths = ps\<rparr> h =
      Some (\<lparr>nodes = [n1, n2], edges = [], paths = None\<rparr>,
            h(position n1 :=
                \<lparr>x = START_X - (width (dimensions n1) + width (dimensions n2) + NODE_SPACING) / 2,
                 y = START_Y\<rparr>,
              position n2 :=
                \<lparr>x = START_X - (width (dimensions n1) + width (dimensions n2) + NODE_SPACING) / 2 +
                     width (dimensions n1) + NODE_SPACING,
                 y = START_Y\<rparr>))"
  by (simp add: autoLayout_def two_nodes_assignLevels [OF assms] levelGroups_def placeLevel_def
      set_xy add.assoc)

text \<open>
  Claim C10, as the code has it. There are an output document and a set of position
  objects with new values, fixed by the input alone, such that for every store the call
  returns that document and overwrites exactly those objects with those values: after
  the call each of them holds its new value, whatever it held before. The output has
  the node list and the edge list of the input (the same node objects, so the same ids,
  and the same edges), so the input's nodes hold the assigned positions, the same as
  the output's. Only position objects of the input's nodes are written; when the node
  list is non-empty, the objects written are the position objects of the nodes the
  node map holds, at least one; with distinct ids these are the position objects of all
  nodes; and the \<open>y\<close> written to an object is \<open>START_Y + level * LEVEL_SPACING\<close> for the
  level of a node that owns it.
\<close>

theorem autoLayout_assigns_in_place:
  "\<exists>out w.
     (\<forall>h. autoLayout dd h = Some (out, overlay w h) \<and>
          positionsOf dd (overlay w h) = positionsOf out (overlay w h) \<and>
          (\<forall>r p. w r = Some p \<longrightarrow> overlay w h r = p)) \<and>
     nodes out = nodes dd \<and> edges out = edges dd \<and>
     map node_id (nodes out) = map node_id (nodes dd) \<and>
     dom w \<subseteq> position ` set (nodes dd) \<and>
     (nodes dd \<noteq> [] \<and> distinct (map node_id (nodes dd)) \<longrightarrow>
        dom w = position ` set (nodes dd)) \<and>
     (nodes dd \<noteq> [] \<longrightarrow>
        (\<exists>m. assignLevels (nodes dd) (edges dd) = Some m \<and>
          dom w = (\<lambda>l. position (node l)) ` snd ` set m \<and> dom w \<noteq> {} \<and>
          (\<forall>r p. w r = Some p \<longrightarrow>
             (\<exists>l \<in> snd ` set m. position (node l) = r \<and>
                y p = START_Y + of_int (level l) * LEVEL_SPACING))))"
proof -
  from autoLayout_writes [of dd]
  obtain out w where r: "\<forall>h. autoLayout dd h = Some (out, overlay w h)"
    "nodes out = nodes dd" "edges out = edges dd"
    "dom w \<subseteq> position ` set (nodes dd)"
    "nodes dd \<noteq> [] \<and> distinct (map node_id (nodes dd)) \<longrightarrow> dom w = position ` set (nodes dd)"
    "nodes dd \<noteq> [] \<longrightarrow>
        (\<exists>m. assignLevels (nodes dd) (edges dd) = Some m \<and>
          dom w = (\<lambda>l. position (node l)) ` snd ` set m \<and> dom w \<noteq> {} \<and>
          (\<forall>r p. w r = Some p \<longrightarrow>
             (\<exists>l \<in> snd ` set m. position (node l) = r \<and>
                y p = START_Y + of_int (level l) * LEVEL_SPACING)))"
    by blast
  have h: "\<forall>h. autoLayout dd h = Some (out, overlay w h) \<and>
          positionsOf dd (overlay w h) = positionsOf out (overlay w h) \<and>
          (\<forall>r p. w r = Some p \<longrightarrow> overlay w h r = p)"
    using r(1,2) by (simp add: positionsOf_def overlay_def)
  have i: "map node_id (nodes out) = map node_id (nodes dd)"
    using r(2) by simp
  from h r(2,3) i r(4,5,6) show ?thesis
    by blast
qed

theorem autoLayout_assigns_in_place_witness:
  "[exampleNode ''A'' 10 180, exampleNode ''B'' 20 180] \<noteq> [] \<and>
   distinct (map node_id [exampleNode ''A'' (10::ref) 180, exampleNode ''B'' 20 180]) \<and>
   (\<exists>out w.
      (\<forall>h. autoLayout \<lparr>nodes = [exampleNode ''A'' 10 180, exampleNode ''B'' 20 180], edges = [],
                        paths = None\<rparr> h = Some (out, overlay w h)) \<and>
      nodes out = [exampleNode ''A'' 10 180, exampleNode ''B'' 20 180] \<and>
      dom w = {10, 20} \<and>
      w 10 = Some \<lparr>x = - 110, y = 100\<rparr> \<and> w 20 = Some \<lparr>x = 130, y = 100\<rparr>)"
proof -
  let ?dd = "\<lparr>nodes = [exampleNode ''A'' 10 180, exampleNode ''B'' 20 180], edges = [],
              paths = None\<rparr> :: ref DiagramData"
  have pre: "nodes ?dd \<noteq> [] \<and> distinct (map node_id (nodes ?dd))"
    by simp
  from autoLayout_assigns_in_place [of ?dd]
  obtain out w where big:
    "(\<forall>h. autoLayout ?dd h = Some (out, overlay w h) \<and>
          positionsOf ?dd (overlay w h) = positionsOf out (overlay w h) \<and>
          (\<forall>r p. w r = Some p \<longrightarrow> overlay w h r = p)) \<and>
     nodes out = nodes ?dd \<and> edges out = edges ?dd \<and>
     map node_id (nodes out) = map node_id (nodes ?dd) \<and>
     dom w \<subseteq> position ` set (nodes ?dd) \<and>
     (nodes ?dd \<noteq> [] \<and> distinct (map node_id (nodes ?dd)) \<longrightarrow>
        dom w = position ` set (nodes ?dd)) \<and>
     (nodes ?dd \<noteq> [] \<longrightarrow>
        (\<exists>m. assignLevels (nodes ?dd) (edges ?dd) = Some m \<and>
          dom w = (\<lambda>l. position (node l)) ` snd ` set m \<and> dom w \<noteq> {} \<and>
          (\<forall>r p. w r = Some p \<longrightarrow>
             (\<exists>l \<in> snd ` set m. position (node l) = r \<and>
                y p = START_Y + of_int (level l) * LEVEL_SPACING))))"
    by (elim exE) (rule that)
  from big have "\<forall>h. autoLayout ?dd h = Some (out, overlay w h) \<and>
          positionsOf ?dd (overlay w h) = positionsOf out (overlay w h) \<and>
          (\<forall>r p. w r = Some p \<longrightarrow> overlay w h r = p)"
    by (rule conjunct1)
  then have r1: "\<forall>h. autoLayout ?dd h = Some (out, overlay w h)"
    by blast
  have r2: "nodes out = nodes ?dd"
    by (rule big [THEN conjunct2, THEN conjunct1])
  have r3: "nodes ?dd \<noteq> [] \<and> distinct (map node_id (nodes ?dd)) \<longrightarrow>
      dom w = position ` set (nodes ?dd)"
    by (rule big [THEN conjunct2, THEN conjunct2, THEN conjunct2, THEN conjunct2,
        THEN conjunct2, THEN conjunct1])
  note r = r1 r2 r3
  from r(3) pre have "dom w = position ` set (nodes ?dd)"
    by (rule mp)
  then have d: "dom w = {10, 20}"
    by simp
  have ne: "node_id (exampleNode ''A'' (10::ref) 180) \<noteq> node_id (exampleNode ''B'' (20::ref) 180)"
    by simp
  have c: "autoLayout ?dd originStore =
      Some (\<lparr>nodes = nodes ?dd, edges = [], paths = None\<rparr>,
            originStore(10 := \<lparr>x = - 110, y = 100\<rparr>, 20 := \<lparr>x = 130, y = 100\<rparr>))"
    unfolding two_nodes_autoLayout [OF ne]
    by (simp add: START_X_def START_Y_def NODE_SPACING_def)
  from r(1) have "autoLayout ?dd originStore = Some (out, overlay w originStore)"
    by (rule spec)
  with c have s: "overlay w originStore =
      originStore(10 := \<lparr>x = - 110, y = 100\<rparr>, 20 := \<lparr>x = 130, y = 100\<rparr>)"
    by simp
  have "10 \<in> dom w" and "20 \<in> dom w"
    unfolding d by simp_all
  then obtain p q where pq: "w 10 = Some p" "w 20 = Some q"
    by blast
  from pq(1) have "overlay w originStore 10 = p"
    by (simp add: overlay_def)
  then have p: "p = \<lparr>x = - 110, y = 100\<rparr>"
    unfolding s by simp
  from pq(2) have "overlay w originStore 20 = q"
    by (simp add: overlay_def)
  then have q: "q = \<lparr>x = 130, y = 100\<rparr>"
    unfolding s by simp
  have "(\<forall>h. autoLayout ?dd h = Some (out, overlay w h)) \<and>
      nodes out = nodes ?dd \<and> dom w = {10, 20} \<and>
      w 10 = Some \<lparr>x = - 110, y = 100\<rparr> \<and> w 20 = Some \<lparr>x = 130, y = 100\<rparr>"
    using r(1,2) d pq unfolding p q by (intro conjI)
  then have "\<exists>out w.
      (\<forall>h. autoLayout ?dd h = Some (out, overlay w h)) \<and>
      nodes out = nodes ?dd \<and> dom w = {10, 20} \<and>
      w 10 = Some \<lparr>x = - 110, y = 100\<rparr> \<and> w 20 = Some \<lparr>x = 130, y = 100\<rparr>"
    by (intro exI)
  with pre show ?thesis
    by simp
qed

text \<open>
  Claim C10 as stated fails on a document of one node: after the call the position
  object of the input's node holds the assigned position, not its original one.
\<close>

theorem autoLayout_overwrites_input_position:
  "positionsOf \<lparr>nodes = [exampleNode ''A'' 10 180], edges = [], paths = None\<rparr> originStore =
     [\<lparr>x = 0, y = 0\<rparr>] \<and>
   autoLayout \<lparr>nodes = [exampleNode ''A'' 10 180], edges = [], paths = None\<rparr> originStore =
     Some (\<lparr>nodes = [exampleNode ''A'' 10 180], edges = [], paths = None\<rparr>,
           originStore(10 := \<lparr>x = 10, y = 100\<rparr>)) \<and>
   positionsOf \<lparr>nodes = [exampleNode ''A'' 10 180], edges = [], paths = None\<rparr>
     (originStore(10 := \<lparr>x = 10, y = 100\<rparr>)) = [\<lparr>x = 10, y = 100\<rparr>]"
  by (simp add: positionsOf_def autoLayout_def assignLevels_def buildGraph_def
      initNodeMap_def rootNodes_def settle_def parentLevels_def levelGroups_def placeLevel_def
      set_xy START_X_def START_Y_def NODE_SPACING_def LEVEL_SPACING_def)

section \<open>Properties of the import\<close>

text \<open>
  Claim C7. When the parsed file is an object without a \<open>nodes\<close> property, or with one
  that is not an array, the import does nothing but report the validation failure
  \<open>Invalid diagram format\<close>: past, present and future of the history are those from
  before the import (no commit), and the selection and the pending save are untouched.
  The same holds for a parsed value that is not an object (\<open>null\<close> apart, where the
  failure reported is the \<open>TypeError\<close>).
\<close>

theorem import_without_nodes_rejected:
  "(\<not> isArray (map_of props ''nodes'') \<longrightarrow>
      handleImport asDiagramData ed (Some (Inr (JObject props))) =
        ed\<lparr>ed_error := Some ''Invalid diagram format''\<rparr> \<and>
      history (ed_history (handleImport asDiagramData ed (Some (Inr (JObject props))))) =
        history (ed_history ed) \<and>
      ed_selectedNodeIds (handleImport asDiagramData ed (Some (Inr (JObject props)))) =
        ed_selectedNodeIds ed \<and>
      ed_saveTimeout (handleImport asDiagramData ed (Some (Inr (JObject props)))) =
        ed_saveTimeout ed) \<and>
   ((\<forall>props. j \<noteq> JObject props) \<longrightarrow>
      ed_history (handleImport asDiagramData ed (Some (Inr j))) = ed_history ed \<and>
      ed_error (handleImport asDiagramData ed (Some (Inr j))) =
        Some (if j = JNull then nullPropertyMessage else ''Invalid diagram format''))"
proof (intro conjI impI)
  assume a: "\<not> isArray (map_of props ''nodes'')"
  show r: "handleImport asDiagramData ed (Some (Inr (JObject props))) =
        ed\<lparr>ed_error := Some ''Invalid diagram format''\<rparr>"
    using a by (simp add: handleImport_def)
  show "history (ed_history (handleImport asDiagramData ed (Some (Inr (JObject props))))) =
        history (ed_history ed)"
    and "ed_selectedNodeIds (handleImport asDiagramData ed (Some (Inr (JObject props)))) =
        ed_selectedNodeIds ed"
    and "ed_saveTimeout (handleImport asDiagramData ed (Some (Inr (JObject props)))) =
        ed_saveTimeout ed"
    by (simp_all add: r)
next
  assume a: "\<forall>props. j \<noteq> JObject props"
  then show "ed_history (handleImport asDiagramData ed (Some (Inr j))) = ed_history ed"
    and "ed_error (handleImport asDiagramData ed (Some (Inr j))) =
        Some (if j = JNull then nullPropertyMessage else ''Invalid diagram format'')"
    by (cases j; simp add: handleImport_def)+
qed

theorem import_without_nodes_rejected_witness:
  "\<not> isArray (map_of [(''edges'', JArray [])] ''nodes'') \<and>
   handleImport (\<lambda>j. 3)
     \<lparr>ed_history = commitAll (useHistory (0::int)) [1, 2], ed_selectedNodeIds = [''n1''],
      ed_error = None, ed_saveStatus = Idle, ed_saveTimeout = None\<rparr>
     (Some (Inr (JObject [(''edges'', JArray [])]))) =
     \<lparr>ed_history = commitAll (useHistory (0::int)) [1, 2], ed_selectedNodeIds = [''n1''],
      ed_error = Some ''Invalid diagram format'', ed_saveStatus = Idle, ed_saveTimeout = None\<rparr> \<and>
   (\<forall>props. JNumber 5 \<noteq> JObject props) \<and>
   ed_history (handleImport (\<lambda>j. 3)
     \<lparr>ed_history = commitAll (useHistory (0::int)) [1, 2], ed_selectedNodeIds = [''n1''],
      ed_error = None, ed_saveStatus = Idle, ed_saveTimeout = None\<rparr>
     (Some (Inr (JNumber 5)))) = commitAll (useHistory (0::int)) [1, 2]"
  using import_without_nodes_rejected
    [of "[(''edges'', JArray [])]" "\<lambda>j. 3"
        "\<lparr>ed_history = commitAll (useHistory (0::int)) [1, 2], ed_selectedNodeIds = [''n1''],
          ed_error = None, ed_saveStatus = Idle, ed_saveTimeout = None\<rparr>" "JNumber 5"]
  by simp

end
